theory Spec2Isabelle
  imports Main
begin

section \<open>JavaScript values and string primitives used by testParser.ts\<close>

text \<open>
  A JavaScript string is modelled as a \<open>string\<close>; every \<open>char\<close> stands for one UTF-16 code
  unit below 256.  A value that may be \<open>undefined\<close> or \<open>null\<close> is an \<open>option\<close> (\<open>None\<close>);
  the empty string is falsy, as in JavaScript.  Numbers are mathematical integers: the model
  does not round the way IEEE doubles do beyond \<open>2^53\<close>.  A thrown exception (a rejected
  promise of an \<open>async\<close> function) is the \<open>Inl\<close> of a sum.  The logging calls
  (\<open>core.debug\<close>, \<open>core.info\<close>, \<open>core.warning\<close>, \<open>core.error\<close>) have no influence on
  any returned value and are left out.
\<close>

datatype error = TypeError | SyntaxError | IOError

definition truthy :: "string option \<Rightarrow> bool" where
  "truthy v = (case v of None \<Rightarrow> False | Some s \<Rightarrow> s \<noteq> [])"

text \<open>\<open>a || b\<close> on values that are strings, \<open>undefined\<close> or \<open>null\<close>.\<close>

definition js_or :: "string option \<Rightarrow> string option \<Rightarrow> string option" where
  "js_or a b = (if truthy a then a else b)"

text \<open>\<open>n || d\<close> for \<open>n : number | null\<close>: zero and \<open>null\<close> are falsy.\<close>

fun num_or :: "int option \<Rightarrow> int \<Rightarrow> int" where
  "num_or None d = d"
| "num_or (Some n) d = (if n = 0 then d else n)"

text \<open>White space and line terminators of ECMAScript, among the code units below 256.\<close>

definition isWhiteSpace :: "char \<Rightarrow> bool" where
  "isWhiteSpace c = (c \<in> set [CHR 0x09, CHR 0x0A, CHR 0x0B, CHR 0x0C, CHR 0x0D, CHR 0x20, CHR 0xA0])"

definition trim :: "string \<Rightarrow> string" where
  "trim s = rev (dropWhile isWhiteSpace (rev (dropWhile isWhiteSpace s)))"

text \<open>\<open>s.split(c)\<close> for a one-character separator: never the empty array.\<close>

fun split_on :: "char \<Rightarrow> string \<Rightarrow> string list" where
  "split_on c [] = [[]]"
| "split_on c (x # xs) =
     (if x = c then [] # split_on c xs
      else (case split_on c xs of [] \<Rightarrow> [[x]] | t # ts \<Rightarrow> (x # t) # ts))"

text \<open>\<open>xs.join(c)\<close>.\<close>

fun join_with :: "char \<Rightarrow> string list \<Rightarrow> string" where
  "join_with c [] = []"
| "join_with c [x] = x"
| "join_with c (x # y # ys) = x @ c # join_with c (y # ys)"

definition endsWith :: "string \<Rightarrow> string \<Rightarrow> bool" where
  "endsWith s suffix = (length suffix \<le> length s \<and> drop (length s - length suffix) s = suffix)"

text \<open>\<open>s.indexOf(pat)\<close>, \<open>None\<close> for \<open>-1\<close>.\<close>

fun indexOf :: "string \<Rightarrow> string \<Rightarrow> nat option" where
  "indexOf pat [] = (if pat = [] then Some 0 else None)"
| "indexOf pat (c # s) =
     (if take (length pat) (c # s) = pat then Some 0 else map_option Suc (indexOf pat s))"

text \<open>
  The replacement text of \<open>String.prototype.replace\<close> for a string pattern (GetSubstitution
  with no captures): \<open>$$\<close>, \<open>$&\<close>, \<open>$`\<close> and \<open>$'\<close> are special, every other \<open>$\<close> is literal.
\<close>

fun getSubstitution :: "string \<Rightarrow> string \<Rightarrow> string \<Rightarrow> string \<Rightarrow> string" where
  "getSubstitution matched pre post [] = []"
| "getSubstitution matched pre post [c] = [c]"
| "getSubstitution matched pre post (c # d # r) =
     (if c = CHR ''$'' \<and> d = CHR ''$'' then CHR ''$'' # getSubstitution matched pre post r
      else if c = CHR ''$'' \<and> d = CHR ''&'' then matched @ getSubstitution matched pre post r
      else if c = CHR ''$'' \<and> d = CHR 0x60 then pre @ getSubstitution matched pre post r
      else if c = CHR ''$'' \<and> d = CHR 0x27 then post @ getSubstitution matched pre post r
      else c # getSubstitution matched pre post (d # r))"

text \<open>\<open>s.replace(pat, rep)\<close> with a string pattern: only the first occurrence is replaced.\<close>

definition js_replace :: "string \<Rightarrow> string \<Rightarrow> string \<Rightarrow> string" where
  "js_replace s pat rep =
     (case indexOf pat s of
        None \<Rightarrow> s
      | Some i \<Rightarrow>
          take i s
          @ getSubstitution pat (take i s) (drop (i + length pat) s) rep
          @ drop (i + length pat) s)"

subsection \<open>parseInt\<close>

definition digitValue :: "char \<Rightarrow> nat option" where
  "digitValue c =
     (let n = (of_char c :: nat) in
      if 48 \<le> n \<and> n \<le> 57 then Some (n - 48)
      else if 97 \<le> n \<and> n \<le> 102 then Some (n - 87)
      else if 65 \<le> n \<and> n \<le> 70 then Some (n - 55)
      else None)"

definition isRadixDigit :: "nat \<Rightarrow> char \<Rightarrow> bool" where
  "isRadixDigit r c = (case digitValue c of None \<Rightarrow> False | Some d \<Rightarrow> d < r)"

definition radixValue :: "nat \<Rightarrow> string \<Rightarrow> nat" where
  "radixValue r ds = foldl (\<lambda>acc c. acc * r + (case digitValue c of None \<Rightarrow> 0 | Some d \<Rightarrow> d)) 0 ds"

text \<open>
  \<open>parseInt(str)\<close> with no radix argument: leading white space is skipped, a sign is read, a
  \<open>0x\<close> or \<open>0X\<close> prefix selects radix 16, and the longest prefix of digits is the value.
  \<open>None\<close> is \<open>NaN\<close>.
\<close>

definition parseInt :: "string \<Rightarrow> int option" where
  "parseInt str =
     (let s0 = dropWhile isWhiteSpace str;
          neg = (take 1 s0 = ''-'');
          s1 = (if take 1 s0 = ''+'' \<or> take 1 s0 = ''-'' then drop 1 s0 else s0);
          hex = (take 2 s1 = ''0x'' \<or> take 2 s1 = ''0X'');
          r = (if hex then 16 else 10);
          s2 = (if hex then drop 2 s1 else s1);
          z = takeWhile (isRadixDigit r) s2
      in if z = [] then None
         else Some ((if neg then - 1 else 1) * int (radixValue r z)))"

text \<open>Lines 99-104.\<close>

definition safeParseInt :: "string option \<Rightarrow> int option" where
  "safeParseInt line = (if \<not> truthy line then None else parseInt (case line of None \<Rightarrow> [] | Some s \<Rightarrow> s))"

subsection \<open>The regular expressions of resolveFileAndLine\<close>

text \<open>The character class \<open>[.*+?^${}()|[\]\\]\<close> of line 68.\<close>

definition isRegExpSpecial :: "char \<Rightarrow> bool" where
  "isRegExpSpecial c = (c \<in> set ''.*+?^${}()|[]'' \<or> c = CHR 0x5C)"

text \<open>\<open>fileName.replace(/[.*+?^${}()|[\]\\]/g, '\\$&')\<close>: a backslash before every special character.\<close>

definition escapeRegExp :: "string \<Rightarrow> string" where
  "escapeRegExp s = concat (map (\<lambda>c. if isRegExpSpecial c then [CHR 0x5C, c] else [c]) s)"

text \<open>Line 68: the escaped name, then \<open>.replace('::', '/')\<close>.\<close>

definition escapedFileName :: "string \<Rightarrow> string" where
  "escapedFileName fileName = js_replace (escapeRegExp fileName) ''::'' ''/''"

text \<open>
  The pattern source \<open>escapedFileName\<close> read by \<open>new RegExp\<close>: a backslash makes the next
  character literal, every other character of an escaped name stands for itself.
\<close>

fun patternLiteral :: "string \<Rightarrow> string" where
  "patternLiteral [] = []"
| "patternLiteral [c] = [c]"
| "patternLiteral (c # d # r) = (if c = CHR 0x5C then d # patternLiteral r else c # patternLiteral (d # r))"

definition isDigit :: "char \<Rightarrow> bool" where
  "isDigit c = isRadixDigit 10 c"

definition isLineTerminator :: "char \<Rightarrow> bool" where
  "isLineTerminator c = (c = CHR 0x0A \<or> c = CHR 0x0D)"

text \<open>
  \<open>.*?:\d+\<close> at the start of \<open>s\<close>: the number of characters matched.  The lazy \<open>.*?\<close> stops
  at the first colon that a digit follows and never crosses a line terminator; \<open>\d+\<close> is greedy.
\<close>

fun matchTail :: "string \<Rightarrow> nat option" where
  "matchTail [] = None"
| "matchTail (c # s) =
     (if c = CHR '':'' \<and> takeWhile isDigit s \<noteq> [] then Some (Suc (length (takeWhile isDigit s)))
      else if isLineTerminator c then None
      else map_option Suc (matchTail s))"

text \<open>
  \<open>[^ ]*\<close> followed by the literal name and the tail, at the start of \<open>s\<close>: the greedy
  \<open>[^ ]*\<close> first takes \<open>k\<close> characters and gives them back one by one.
\<close>

fun matchName :: "string \<Rightarrow> nat \<Rightarrow> string \<Rightarrow> nat option" where
  "matchName lit k s =
     (case (if take (length lit) (drop k s) = lit
            then matchTail (drop (k + length lit) s) else None) of
        Some n \<Rightarrow> Some (k + length lit + n)
      | None \<Rightarrow> (case k of 0 \<Rightarrow> None | Suc j \<Rightarrow> matchName lit j s))"

text \<open>The whole pattern \<open> [^ ]*NAME.*?:\d+\<close> at the start of \<open>s\<close>.\<close>

definition matchAt :: "string \<Rightarrow> string \<Rightarrow> nat option" where
  "matchAt lit s =
     (case s of
        [] \<Rightarrow> None
      | c # r \<Rightarrow>
          if c = CHR '' '' then map_option Suc (matchName lit (length (takeWhile (\<lambda>x. x \<noteq> CHR '' '') r)) r)
          else None)"

text \<open>
  The global scan: all matches from left to right, each search resuming where the last
  match ended.  \<open>skip\<close> counts the characters of \<open>s\<close> that the previous match still covers.
\<close>

fun scanMatches :: "string \<Rightarrow> nat \<Rightarrow> string \<Rightarrow> string list" where
  "scanMatches lit skip [] = []"
| "scanMatches lit (Suc skip) (c # s) = scanMatches lit skip s"
| "scanMatches lit 0 (c # s) =
     (case matchAt lit (c # s) of
        None \<Rightarrow> scanMatches lit 0 s
      | Some n \<Rightarrow> take n (c # s) # scanMatches lit (n - 1) s)"

text \<open>
  \<open>output.match(new RegExp(` [^ ]*${escapedFileName}.*?:\\d+`, 'g'))\<close> of line 70:
  \<open>None\<close> is \<open>null\<close>.  This engine never throws.
\<close>

definition regExpMatchAll :: "string \<Rightarrow> string \<Rightarrow> error + string list option" where
  "regExpMatchAll escaped output =
     (let ms = scanMatches (patternLiteral escaped) 0 output
      in Inr (if ms = [] then None else Some ms))"

section \<open>resolveFileAndLine (lines 55-94)\<close>

record Position =
  fileName :: string
  line :: int

text \<open>The return statement that produced the result: lines 65, 71, 89 and 92.\<close>

datatype route = Explicit | NoMatch | Matched | Caught

text \<open>Lines 73-89, from the last match on.\<close>

definition fromLastItem :: "string \<Rightarrow> string \<Rightarrow> Position" where
  "fromLastItem fileName0 lastItem =
     (let lineTokens = split_on CHR '':'' lastItem;
          line1 = (if last lineTokens = [] then ''0'' else last lineTokens);
          lineTokens1 = butlast lineTokens;
          lineNumberPrefix = (if lineTokens1 = [] then [] else last lineTokens1);
          fileName1 = (if endsWith lineNumberPrefix ''.rs''
                       then last (split_on CHR '' '' lineNumberPrefix) else fileName0)
      in \<lparr>fileName = fileName1, line = num_or (safeParseInt (Some line1)) (- 1)\<rparr>)"

text \<open>
  The body of the \<open>try\<close> block, lines 64-89.  \<open>search\<close> stands for the regular-expression
  search of line 70, given the escaped name and the corpus; it may throw.
\<close>

definition tryBlock ::
  "(string \<Rightarrow> string \<Rightarrow> error + string list option) \<Rightarrow> string \<Rightarrow> int option \<Rightarrow> string
    \<Rightarrow> error + route \<times> Position" where
  "tryBlock search fileName0 lineNumber output =
     (if fileName0 \<noteq> [] \<and> num_or lineNumber 0 \<noteq> 0
      then Inr (Explicit, \<lparr>fileName = fileName0, line = num_or lineNumber 0\<rparr>)
      else
        (case search (escapedFileName fileName0) output of
           Inl e \<Rightarrow> Inl e
         | Inr None \<Rightarrow> Inr (NoMatch, \<lparr>fileName = fileName0, line = num_or lineNumber 1\<rparr>)
         | Inr (Some matches) \<Rightarrow>
             (case matches of
                [] \<Rightarrow> Inl TypeError
              | _ # _ \<Rightarrow> Inr (Matched, fromLastItem fileName0 (last matches)))))"

text \<open>
  Line 61, \<open>file ? file : className.split('.').slice(-1)[0]\<close>.  \<open>className\<close> is \<open>None\<close> when
  a caller passes \<open>undefined\<close>, against the declared type \<open>string\<close>: line 61 is outside the
  \<open>try\<close> block, so \<open>className.split\<close> then throws to the caller.
\<close>

definition resolvedFileName :: "string option \<Rightarrow> string option \<Rightarrow> error + string" where
  "resolvedFileName file className =
     (if truthy file then Inr (case file of None \<Rightarrow> [] | Some f \<Rightarrow> f)
      else (case className of
              None \<Rightarrow> Inl TypeError
            | Some c \<Rightarrow> Inr (last (split_on CHR ''.'' c))))"

text \<open>The function with the search as a parameter and the return statement recorded.\<close>

definition resolveFileAndLine_with ::
  "(string \<Rightarrow> string \<Rightarrow> error + string list option)
    \<Rightarrow> string option \<Rightarrow> string option \<Rightarrow> string option \<Rightarrow> string \<Rightarrow> error + route \<times> Position" where
  "resolveFileAndLine_with search file line0 className output =
     (case resolvedFileName file className of
        Inl e \<Rightarrow> Inl e
      | Inr fileName0 \<Rightarrow>
          (let lineNumber = safeParseInt line0 in
           case tryBlock search fileName0 lineNumber output of
             Inr r \<Rightarrow> Inr r
           | Inl e \<Rightarrow> Inr (Caught, \<lparr>fileName = fileName0, line = num_or (safeParseInt line0) (- 1)\<rparr>)))"

definition resolveFileAndLine ::
  "string option \<Rightarrow> string option \<Rightarrow> string option \<Rightarrow> string \<Rightarrow> error + Position" where
  "resolveFileAndLine file line0 className output =
     map_sum id snd (resolveFileAndLine_with regExpMatchAll file line0 className output)"

section \<open>The report document\<close>

text \<open>
  The value \<open>JSON.parse(parser.xml2json(data, {compact: true}))\<close>: an element is an object
  with an optional \<open>_attributes\<close> object, optional \<open>_text\<close> and \<open>_cdata\<close> payloads (the
  strings that \<open>toString()\<close> yields) and, for every child element name, either one element
  or an array of elements.
\<close>

datatype 'e child = Single 'e | Many "'e list"

datatype element = Element
  (x_attributes: "(string \<times> string) list option")
  (x_text: "string option")
  (x_cdata: "string option")
  (x_children: "(string \<times> element child) list")

text \<open>\<open>e[name]\<close> for a child element name: \<open>None\<close> is \<open>undefined\<close>; objects and arrays are truthy.\<close>

definition getChild :: "element \<Rightarrow> string \<Rightarrow> element child option" where
  "getChild e name = map_of (x_children e) name"

text \<open>\<open>e?._attributes?.[name]\<close>.\<close>

definition attr :: "element option \<Rightarrow> string \<Rightarrow> string option" where
  "attr e name =
     (case e of None \<Rightarrow> None
      | Some x \<Rightarrow> (case x_attributes x of None \<Rightarrow> None | Some as \<Rightarrow> map_of as name))"

text \<open>\<open>Array.isArray(x) ? x : [x]\<close>.\<close>

fun asArray :: "'e child \<Rightarrow> 'e list" where
  "asArray (Single e) = [e]"
| "asArray (Many es) = es"

text \<open>\<open>x ? (Array.isArray(x) ? x : [x])[0] : undefined\<close>, lines 305-320.\<close>

definition firstOf :: "element child option \<Rightarrow> element option" where
  "firstOf c =
     (case c of None \<Rightarrow> None
      | Some x \<Rightarrow> (case asArray x of [] \<Rightarrow> None | e # _ \<Rightarrow> Some e))"

text \<open>A property that is read through \<open>x.p\<close>: an array has no such property.\<close>

definition single :: "element child option \<Rightarrow> element option" where
  "single c = (case c of Some (Single e) \<Rightarrow> Some e | _ \<Rightarrow> None)"

section \<open>Results, configuration and collaborators\<close>

datatype level = Failure | Notice | Warning

datatype outcome_status = Success | Failed | Skipped

record Annotation =
  path :: string
  start_line :: int
  end_line :: int
  start_column :: int
  end_column :: int
  annotation_level :: level
  status :: outcome_status
  title :: string
  message :: string
  raw_details :: string

record InternalTestResult =
  totalCount :: int
  skipped :: int
  annotations :: "Annotation list"

record TestResult = InternalTestResult +
  checkName :: string
  summary :: string
  failed :: int
  passed :: int
  foundFiles :: int

record Transformer =
  searchValue :: string
  replaceValue :: string

text \<open>
  The configuration arguments that \<open>parseTestReports\<close>, \<open>parseFile\<close> and \<open>parseSuite\<close> hand
  to each other unchanged, as one record.
\<close>

record options =
  suiteRegex :: string
  annotatePassed :: bool
  checkRetries :: bool
  excludeSources :: "string list"
  checkTitleTemplate :: "string option"
  testFilesPrefix :: string
  transformer :: "Transformer list"
  followSymlink :: bool
  annotationsLimit :: int
  truncateStackTraces :: bool

text \<open>
  What the module imports and does not define: \<open>@actions/glob\<close> (for a pattern and the
  symlink flag, the search paths and the files found, in order), \<open>fs.readFileSync\<close>,
  \<open>xml-js\<close> followed by \<open>JSON.parse\<close>, \<open>applyTransformer\<close> of \<open>./utils\<close>,
  \<open>String.prototype.match\<close> with the configured suite pattern (the match array as the
  string it coerces to, \<open>None\<close> for \<open>null\<close>), \<open>path.join\<close> and the environment variable
  \<open>GITHUB_WORKSPACE\<close>.
\<close>

record env =
  glob :: "string \<Rightarrow> bool \<Rightarrow> string list \<times> string list"
  readFileSync :: "string \<Rightarrow> error + string"
  xml2json :: "string \<Rightarrow> error + element"
  applyTransformer :: "Transformer \<Rightarrow> string \<Rightarrow> string"
  regExpMatch :: "string \<Rightarrow> string \<Rightarrow> error + string option"
  pathJoin :: "string \<Rightarrow> string \<Rightarrow> string"
  githubWorkspace :: "string option"

section \<open>resolvePath (lines 113-131)\<close>

definition js_includes :: "string \<Rightarrow> string \<Rightarrow> bool" where
  "js_includes s v = (indexOf v s \<noteq> None)"

definition resolvePath :: "env \<Rightarrow> string \<Rightarrow> string list \<Rightarrow> bool \<Rightarrow> error + string" where
  "resolvePath e name excluded follow =
     (let normalizedFilename = (if take 2 name = ''./'' then drop 2 name else name);
          globber = glob e (''**/'' @ normalizedFilename @ ''.*'') follow
      in case filter (\<lambda>result. \<not> truthy (find (\<lambda>v. js_includes result v) excluded)) (snd globber) of
           [] \<Rightarrow> Inr normalizedFilename
         | result # _ \<Rightarrow>
             (case fst globber of
                [] \<Rightarrow> Inl TypeError
              | searchPath # _ \<Rightarrow> Inr (drop (length searchPath + 1) result)))"

section \<open>escapeEmoji (lines 515-519)\<close>

text \<open>Of the code points of the character class, only U+00A9 and U+00AE are below 256.\<close>

definition escapeEmoji :: "string \<Rightarrow> string" where
  "escapeEmoji input = filter (\<lambda>c. c \<noteq> CHR 0xA9 \<and> c \<noteq> CHR 0xAE) input"

section \<open>parseSuite (lines 190-432)\<close>

definition emptyResult :: InternalTestResult where
  "emptyResult = \<lparr>totalCount = 0, skipped = 0, annotations = []\<rparr>"

text \<open>Lines 213-219; \<open>None\<close> is an \<open>undefined\<close> element of the sequence.\<close>

definition testsuitesOf :: "element \<Rightarrow> element option list" where
  "testsuitesOf suite =
     (case getChild suite ''testsuite'' of
        Some c \<Rightarrow> map Some (asArray c)
      | None \<Rightarrow>
          (case getChild suite ''testsuites'' of
             None \<Rightarrow> []
           | Some (Many ws) \<Rightarrow> [None]
           | Some (Single w) \<Rightarrow>
               (case getChild w ''testsuite'' of
                  None \<Rightarrow> [None]
                | Some (Single t) \<Rightarrow> [Some t]
                | Some (Many ts) \<Rightarrow> map Some ts)))"

text \<open>
  The values of \<open>suiteName\<close> and \<open>parentName\<close>: \<open>undefined\<close> or \<open>null\<close>, a string, or the
  array that \<open>match\<close> returned (truthy whatever it holds), kept as the string it coerces to.
\<close>

datatype suite_name = NoName | NameString string | NameMatch string

fun nameTruthy :: "suite_name \<Rightarrow> bool" where
  "nameTruthy NoName = False"
| "nameTruthy (NameString s) = (s \<noteq> [])"
| "nameTruthy (NameMatch s) = True"

fun nameText :: "suite_name \<Rightarrow> string" where
  "nameText NoName = ''undefined''"
| "nameText (NameString s) = s"
| "nameText (NameMatch s) = s"

definition optText :: "string option \<Rightarrow> string" where
  "optText v = (case v of None \<Rightarrow> ''undefined'' | Some s \<Rightarrow> s)"

definition optName :: "string option \<Rightarrow> suite_name" where
  "optName v = (case v of None \<Rightarrow> NoName | Some s \<Rightarrow> NameString s)"

text \<open>Lines 226-236.\<close>

definition suiteNameOf :: "env \<Rightarrow> options \<Rightarrow> suite_name \<Rightarrow> element \<Rightarrow> error + suite_name" where
  "suiteNameOf e opt parentName testsuite =
     (if suiteRegex opt = [] then Inr (NameString [])
      else
        (case x_attributes testsuite of
           None \<Rightarrow> Inl TypeError
         | Some as \<Rightarrow>
             (case (if nameTruthy parentName
                    then Inr (NameString (nameText parentName @ ''/'' @ optText (map_of as ''name'')))
                    else if suiteRegex opt \<noteq> ''*''
                    then (case map_of as ''name'' of
                            None \<Rightarrow> Inl TypeError
                          | Some n \<Rightarrow>
                              (case regExpMatch e n (suiteRegex opt) of
                                 Inl err \<Rightarrow> Inl err
                               | Inr None \<Rightarrow> Inr NoName
                               | Inr (Some m) \<Rightarrow> Inr (NameMatch m)))
                    else Inr (NameString [])) of
                Inl err \<Rightarrow> Inl err
              | Inr suiteName \<Rightarrow>
                  Inr (if nameTruthy suiteName then suiteName else optName (map_of as ''name'')))))"

text \<open>Lines 259, 424 and 489, with their guard \<open>annotationsLimit > 0\<close>.\<close>

definition limitReached :: "options \<Rightarrow> Annotation list \<Rightarrow> bool" where
  "limitReached opt anns =
     (annotationsLimit opt > 0 \<and>
      int (length (filter (\<lambda>a. annotation_level a = Failure \<or> annotatePassed opt) anns))
        \<ge> annotationsLimit opt)"

subsection \<open>Retries (lines 271-293)\<close>

text \<open>\<open>Map.prototype.set\<close>: a key that is present keeps its place in the iteration order.\<close>

fun mapSet :: "'k \<Rightarrow> 'v \<Rightarrow> ('k \<times> 'v) list \<Rightarrow> ('k \<times> 'v) list" where
  "mapSet k v [] = [(k, v)]"
| "mapSet k v (kv # m) = (if fst kv = k then (k, v) # m else kv # mapSet k v m)"

text \<open>\<open>testcase.failure || testcase.error\<close>.\<close>

definition hasFailure :: "element \<Rightarrow> bool" where
  "hasFailure testcase = (getChild testcase ''failure'' \<noteq> None \<or> getChild testcase ''error'' \<noteq> None)"

fun retryLoop ::
  "element list \<Rightarrow> (string option \<times> element) list \<Rightarrow> error + (string option \<times> element) list" where
  "retryLoop [] testcaseMap = Inr testcaseMap"
| "retryLoop (testcase # rest) testcaseMap =
     (case x_attributes testcase of
        None \<Rightarrow> Inl TypeError
      | Some as \<Rightarrow>
          (let key = map_of as ''name'' in
           case map_of testcaseMap key of
             Some previous \<Rightarrow>
               (if hasFailure testcase \<and> \<not> hasFailure previous then retryLoop rest testcaseMap
                else if \<not> hasFailure testcase \<and> hasFailure previous
                then retryLoop rest (mapSet key testcase testcaseMap)
                else retryLoop rest testcaseMap)
           | None \<Rightarrow> retryLoop rest (mapSet key testcase testcaseMap)))"

definition dropRetries :: "element list \<Rightarrow> error + element list" where
  "dropRetries testcases = map_sum id (map snd) (retryLoop testcases [])"

subsection \<open>One test case (lines 296-421)\<close>

definition templateVar :: "string \<Rightarrow> string" where
  "templateVar varName = ''{{'' @ varName @ ''}}''"

text \<open>Lines 298-302: \<open>skip\<close> and \<open>success\<close> of a test case whose attributes are \<open>as\<close>.\<close>

definition isSkip :: "element \<Rightarrow> (string \<times> string) list \<Rightarrow> bool" where
  "isSkip testcase as =
     (getChild testcase ''skipped'' \<noteq> None
      \<or> map_of as ''status'' = Some ''disabled''
      \<or> map_of as ''status'' = Some ''ignored'')"

text \<open>Lines 325-345.\<close>

definition stackTraceOf :: "element \<Rightarrow> string" where
  "stackTraceOf testcase =
     (let failure = firstOf (getChild testcase ''failure'');
          err = single (getChild testcase ''error'')
      in trim (case js_or (Option.bind failure x_cdata)
                      (js_or (Option.bind failure x_text)
                        (js_or (Option.bind err x_cdata) (Option.bind err x_text))) of
                 None \<Rightarrow> []
               | Some s \<Rightarrow> s))"

definition messageOf :: "options \<Rightarrow> element \<Rightarrow> (string \<times> string) list \<Rightarrow> error + string" where
  "messageOf opt testcase as =
     (let stackTrace = stackTraceOf testcase;
          stackTraceMessage =
            (if truncateStackTraces opt
             then join_with (CHR 0x0A) (take 2 (split_on (CHR 0x0A) stackTrace))
             else stackTrace)
      in case js_or (attr (firstOf (getChild testcase ''failure'')) ''message'')
              (js_or (attr (single (getChild testcase ''error'')) ''message'')
                (js_or (Some stackTraceMessage) (map_of as ''name''))) of
           None \<Rightarrow> Inl TypeError
         | Some m \<Rightarrow> Inr (trim m))"

text \<open>Lines 347-356.\<close>

definition positionOf :: "element \<Rightarrow> element \<Rightarrow> (string \<times> string) list \<Rightarrow> error + Position" where
  "positionOf testsuite testcase as =
     (let failure = firstOf (getChild testcase ''failure'')
      in resolveFileAndLine
           (js_or (map_of as ''file'') (js_or (attr failure ''file'') (attr (Some testsuite) ''file'')))
           (js_or (map_of as ''line'') (js_or (attr failure ''line'') (attr (Some testsuite) ''line'')))
           (if truthy (map_of as ''classname'') then map_of as ''classname'' else map_of as ''name'')
           (stackTraceOf testcase))"

text \<open>Lines 358-373 and 398.\<close>

definition pathOf :: "env \<Rightarrow> options \<Rightarrow> bool \<Rightarrow> Position \<Rightarrow> error + string" where
  "pathOf e opt resolve pos =
     (let transformedFileName = foldl (\<lambda>n r. applyTransformer e r n) (fileName pos) (transformer opt)
      in case (if resolve
               then resolvePath e transformedFileName (excludeSources opt) (followSymlink opt)
               else Inr transformedFileName) of
           Inl err \<Rightarrow> Inl err
         | Inr resolvedPath \<Rightarrow>
             (let stripped =
                    (case githubWorkspace e of
                       None \<Rightarrow> resolvedPath
                     | Some w \<Rightarrow> if w = [] then resolvedPath else js_replace resolvedPath (w @ ''/'') [])
              in Inr (if testFilesPrefix opt \<noteq> [] then pathJoin e (testFilesPrefix opt) stripped
                      else stripped)))"

text \<open>Lines 375-395.\<close>

definition titleOf ::
  "options \<Rightarrow> suite_name \<Rightarrow> (string \<times> string) list \<Rightarrow> Position \<Rightarrow> error + string" where
  "titleOf opt suiteName as pos =
     (let name = map_of as ''name'' in
      if truthy (checkTitleTemplate opt)
      then
        (case (if truthy (map_of as ''classname'') then map_of as ''classname'' else name) of
           None \<Rightarrow> Inl TypeError
         | Some baseClassName \<Rightarrow>
             Inr (js_replace
                   (js_replace
                     (js_replace
                       (js_replace (optText (checkTitleTemplate opt)) (templateVar ''FILE_NAME'')
                         (if Some (fileName pos) \<noteq> name then fileName pos else []))
                       (templateVar ''SUITE_NAME'')
                       (case suiteName of NoName \<Rightarrow> [] | _ \<Rightarrow> nameText suiteName))
                     (templateVar ''TEST_NAME'') (optText name))
                   (templateVar ''CLASS_NAME'') (last (split_on CHR ''.'' baseClassName))))
      else if Some (fileName pos) \<noteq> name
      then Inr (if nameTruthy suiteName
                then fileName pos @ ''.'' @ nameText suiteName @ ''/'' @ optText name
                else fileName pos @ ''.'' @ optText name)
      else Inr (if nameTruthy suiteName then nameText suiteName @ ''/'' @ optText name
                else optText name))"

text \<open>Lines 336-338 and 405-408.\<close>

definition rawDetailsOf :: "element \<Rightarrow> string" where
  "rawDetailsOf testcase =
     (let systemOut = firstOf (getChild testcase ''system-out'');
          sysout = map_option trim (js_or (Option.bind systemOut x_cdata) (Option.bind systemOut x_text))
      in case sysout of
           None \<Rightarrow> stackTraceOf testcase
         | Some out \<Rightarrow>
             if out = [] then stackTraceOf testcase
             else stackTraceOf testcase @ [CHR 0x0A, CHR 0x0A] @ out)"

text \<open>
  The body of the loop over the test cases up to the \<open>push\<close> of line 410: whether the case is
  skipped, and its annotation.  A test case with no \<open>_attributes\<close> throws at line 348 at the
  latest.
\<close>

definition annotate ::
  "env \<Rightarrow> options \<Rightarrow> element \<Rightarrow> suite_name \<Rightarrow> element \<Rightarrow> error + bool \<times> Annotation" where
  "annotate e opt testsuite suiteName testcase =
     (case x_attributes testcase of
        None \<Rightarrow> Inl TypeError
      | Some as \<Rightarrow>
          (let testFailure = hasFailure testcase;
               skip = isSkip testcase as;
               success = \<not> testFailure
           in case messageOf opt testcase as of
                Inl err \<Rightarrow> Inl err
              | Inr msg \<Rightarrow>
                  (case positionOf testsuite testcase as of
                     Inl err \<Rightarrow> Inl err
                   | Inr pos \<Rightarrow>
                       (case pathOf e opt ((testFailure \<and> \<not> skip) \<or> (annotatePassed opt \<and> success)) pos of
                          Inl err \<Rightarrow> Inl err
                        | Inr resolvedPath \<Rightarrow>
                            (case titleOf opt suiteName as pos of
                               Inl err \<Rightarrow> Inl err
                             | Inr t \<Rightarrow>
                                 Inr (skip,
                                      \<lparr>path = resolvedPath,
                                       start_line = line pos,
                                       end_line = line pos,
                                       start_column = 0,
                                       end_column = 0,
                                       annotation_level = (if success \<or> skip then Notice else Failure),
                                       status = (if skip then Skipped
                                                 else if success then Success else Failed),
                                       title = escapeEmoji t,
                                       message = escapeEmoji msg,
                                       raw_details = escapeEmoji (rawDetailsOf testcase)\<rparr>))))))"

text \<open>
  The loop of lines 295-429.  \<open>Returned\<close>: the \<open>return\<close> of line 426 ended \<open>parseSuite\<close>;
  \<open>Completed\<close>: the loop ran to its end.
\<close>

datatype 'a loop_exit = Returned 'a | Completed 'a

fun testcasesLoop ::
  "env \<Rightarrow> options \<Rightarrow> element \<Rightarrow> suite_name \<Rightarrow> element list \<Rightarrow> InternalTestResult
    \<Rightarrow> error + InternalTestResult loop_exit" where
  "testcasesLoop e opt testsuite suiteName [] acc = Inr (Completed acc)"
| "testcasesLoop e opt testsuite suiteName (testcase # rest) acc =
     (case annotate e opt testsuite suiteName testcase of
        Inl err \<Rightarrow> Inl err
      | Inr (skip, a) \<Rightarrow>
          (let acc1 = \<lparr>totalCount = totalCount acc + 1,
                       skipped = (if skip then skipped acc + 1 else skipped acc),
                       annotations = annotations acc @ [a]\<rparr>
           in if limitReached opt (annotations acc1) then Inr (Returned acc1)
              else testcasesLoop e opt testsuite suiteName rest acc1))"

subsection \<open>The suites\<close>

text \<open>For the termination of the traversal: the suites of a node are smaller than the node.\<close>

definition suitesSize :: "element option list \<Rightarrow> nat" where
  "suitesSize suites = sum_list (map (\<lambda>s. case s of None \<Rightarrow> 0 | Some x \<Rightarrow> size x) suites)"

lemma asArray_size_child: "sum_list (map size (asArray c)) < size_child size c"
  by (cases c) (simp_all add: size_list_conv_sum_list)

lemma children_size:
  "map_of cs name = Some c
    \<Longrightarrow> sum_list (map size (asArray c)) < size_list (size_prod (\<lambda>_. 0) (size_child size)) cs"
proof (induction cs)
  case Nil
  then show ?case by simp
next
  case (Cons kv cs)
  obtain k v where kv: "kv = (k, v)" by (cases kv)
  show ?case
  proof (cases "k = name")
    case True
    with Cons.prems kv have "v = c" by simp
    with kv asArray_size_child [of c] show ?thesis by simp
  next
    case False
    with Cons.prems kv have "map_of cs name = Some c" by simp
    from Cons.IH [OF this] kv show ?thesis by simp
  qed
qed

lemma getChild_size: "getChild x name = Some c \<Longrightarrow> sum_list (map size (asArray c)) < size x"
  using children_size [of "x_children x" name c] by (cases x) (simp add: getChild_def)

lemma suitesSize_Some: "suitesSize (map Some xs) = sum_list (map size xs)"
  by (simp add: suitesSize_def comp_def)

lemma testsuitesOf_size: "suitesSize (testsuitesOf suite) < size suite"
proof (cases "getChild suite ''testsuite''")
  case (Some c)
  then show ?thesis
    using getChild_size [OF Some] by (simp add: testsuitesOf_def suitesSize_Some)
next
  case None
  note outer = None
  have pos: "0 < size suite" by (cases suite) simp
  show ?thesis
  proof (cases "getChild suite ''testsuites''")
    case None
    with outer pos show ?thesis by (simp add: testsuitesOf_def suitesSize_def)
  next
    case (Some w)
    show ?thesis
    proof (cases w)
      case (Many ws)
      with outer Some pos show ?thesis by (simp add: testsuitesOf_def suitesSize_def)
    next
      case (Single x)
      from getChild_size [OF Some] Single have x: "size x < size suite" by simp
      show ?thesis
      proof (cases "getChild x ''testsuite''")
        case None
        with outer Some Single pos show ?thesis by (simp add: testsuitesOf_def suitesSize_def)
      next
        case inner: (Some c)
        from getChild_size [OF inner] x
        have "sum_list (map size (asArray c)) < size suite" by simp
        with outer Some Single inner show ?thesis
          by (cases c) (simp_all add: testsuitesOf_def suitesSize_def comp_def)
      qed
    qed
  qed
qed

lemma element_size_pos: "0 < size (x :: element)"
  by (cases x) simp

function (sequential) parseSuite ::
    "env \<Rightarrow> options \<Rightarrow> element \<Rightarrow> suite_name \<Rightarrow> error + InternalTestResult"
  and suitesLoop ::
    "env \<Rightarrow> options \<Rightarrow> suite_name \<Rightarrow> element option list \<Rightarrow> InternalTestResult
      \<Rightarrow> error + InternalTestResult" where
  "parseSuite e opt suite parentName =
     (if getChild suite ''testsuite'' = None \<and> getChild suite ''testsuites'' = None
      then Inr emptyResult
      else suitesLoop e opt parentName (testsuitesOf suite) emptyResult)"
| "suitesLoop e opt parentName [] acc = Inr acc"
| "suitesLoop e opt parentName (None # rest) acc = Inr acc"
| "suitesLoop e opt parentName (Some testsuite # rest) acc =
     (case suiteNameOf e opt parentName testsuite of
        Inl err \<Rightarrow> Inl err
      | Inr suiteName \<Rightarrow>
          (case parseSuite e opt testsuite suiteName of
             Inl err \<Rightarrow> Inl err
           | Inr res \<Rightarrow>
               (let acc1 = \<lparr>totalCount = totalCount acc + totalCount res,
                            skipped = skipped acc + skipped res,
                            annotations = annotations acc @ annotations res\<rparr>
                in case getChild testsuite ''testcase'' of
                     None \<Rightarrow> suitesLoop e opt parentName rest acc1
                   | Some c \<Rightarrow>
                       if limitReached opt (annotations acc1) then Inr acc1
                       else
                         (case (if checkRetries opt then dropRetries (asArray c)
                                else Inr (asArray c)) of
                            Inl err \<Rightarrow> Inl err
                          | Inr testcases \<Rightarrow>
                              (case testcasesLoop e opt testsuite suiteName testcases acc1 of
                                 Inl err \<Rightarrow> Inl err
                               | Inr (Returned acc2) \<Rightarrow> Inr acc2
                               | Inr (Completed acc2) \<Rightarrow> suitesLoop e opt parentName rest acc2)))))"
  by pat_completeness auto
termination
proof (relation "measure (\<lambda>x. case x of
           Inl (e, opt, suite, parentName) \<Rightarrow> 2 * size suite
         | Inr (e, opt, parentName, suites, acc) \<Rightarrow> 2 * suitesSize suites + 1)", goal_cases)
  case 1
  show ?case by simp
next
  case (2 e opt suite parentName)
  show ?case using testsuitesOf_size [of suite] by simp
next
  case (3 e opt parentName testsuite rest acc x2)
  show ?case by (simp add: suitesSize_def)
next
  case (4 e opt parentName testsuite rest acc)
  show ?case using element_size_pos [of testsuite] by (simp add: suitesSize_def)
next
  case (5 e opt parentName testsuite rest acc)
  show ?case using element_size_pos [of testsuite] by (simp add: suitesSize_def)
qed

declare parseSuite.simps [simp del]

section \<open>parseFile (lines 140-184)\<close>

definition parseFile :: "env \<Rightarrow> options \<Rightarrow> string \<Rightarrow> error + InternalTestResult" where
  "parseFile e opt file =
     (case readFileSync e file of
        Inl err \<Rightarrow> Inl err
      | Inr content \<Rightarrow>
          (case xml2json e content of
             Inl err \<Rightarrow> Inr \<lparr>totalCount = 0, skipped = 0, annotations = []\<rparr>
           | Inr report \<Rightarrow> parseSuite e opt report (NameString [])))"

section \<open>parseTestReports (lines 441-510)\<close>

text \<open>
  The loop of lines 462-494 over the files that the globber yields; \<open>n\<close> is \<open>foundFiles\<close>.
  In \<open>parseTestReports\<close> the arguments \<open>checkName\<close> and \<open>summary\<close> are called \<open>name\<close> and
  \<open>text\<close>, and the local variables \<open>failed\<close> and \<open>passed\<close> are called \<open>failures\<close> and
  \<open>passes\<close>: the record fields own the other names.
\<close>

fun reportsLoop ::
  "env \<Rightarrow> options \<Rightarrow> string list \<Rightarrow> InternalTestResult \<Rightarrow> int \<Rightarrow> error + InternalTestResult \<times> int" where
  "reportsLoop e opt [] acc n = Inr (acc, n)"
| "reportsLoop e opt (file # rest) acc n =
     (case parseFile e opt file of
        Inl err \<Rightarrow> Inl err
      | Inr r \<Rightarrow>
          if totalCount r = 0 then reportsLoop e opt rest acc (n + 1)
          else
            (let acc1 = \<lparr>totalCount = totalCount acc + totalCount r,
                         skipped = skipped acc + skipped r,
                         annotations = annotations acc @ annotations r\<rparr>
             in if limitReached opt (annotations acc1) then Inr (acc1, n + 1)
                else reportsLoop e opt rest acc1 (n + 1)))"

definition parseTestReports ::
  "env \<Rightarrow> options \<Rightarrow> string \<Rightarrow> string \<Rightarrow> string \<Rightarrow> error + TestResult" where
  "parseTestReports e opt name text reportPaths =
     (case reportsLoop e opt (snd (glob e reportPaths (followSymlink opt))) emptyResult 0 of
        Inl err \<Rightarrow> Inl err
      | Inr (acc, n) \<Rightarrow>
          (let failures = int (length (filter (\<lambda>a. annotation_level a = Failure) (annotations acc)));
               passes = totalCount acc - failures - skipped acc
           in Inr \<lparr>totalCount = totalCount acc,
                   skipped = skipped acc,
                   annotations = annotations acc,
                   checkName = name,
                   summary = text,
                   failed = failures,
                   passed = passes,
                   foundFiles = n\<rparr>))"

section \<open>Notions used in the statements\<close>

text \<open>A string that ends in a colon and a number, as every match of the pattern of line 70 does.\<close>

definition endsInLineNumber :: "string \<Rightarrow> bool" where
  "endsInLineNumber m = (\<exists>pre ds. m = pre @ CHR '':'' # ds \<and> ds \<noteq> [] \<and> list_all isDigit ds)"

text \<open>
  The number of annotations of level \<open>failure\<close>, which is \<open>failed\<close> at line 497, and the
  number of annotations of status \<open>skipped\<close>.
\<close>

definition failureCount :: "Annotation list \<Rightarrow> int" where
  "failureCount anns = int (length (filter (\<lambda>a. annotation_level a = Failure) anns))"

definition skippedCount :: "Annotation list \<Rightarrow> int" where
  "skippedCount anns = int (length (filter (\<lambda>a. status a = Skipped) anns))"

text \<open>
  The invariant of the accumulators \<open>totalCount\<close>, \<open>skipped\<close> and \<open>annotations\<close>: one
  annotation for every counted case, \<open>skipped\<close> the number of annotations of status
  \<open>skipped\<close>, and each of those of level \<open>notice\<close>.
\<close>

definition skipIsNotice :: "Annotation \<Rightarrow> bool" where
  "skipIsNotice a = (if status a = Skipped then annotation_level a = Notice else True)"

definition wellCounted :: "InternalTestResult \<Rightarrow> bool" where
  "wellCounted r =
     (totalCount r = int (length (annotations r))
      \<and> skipped r = skippedCount (annotations r)
      \<and> list_all skipIsNotice (annotations r))"

text \<open>The accumulators with which the loop over the test cases ended, either way.\<close>

fun exitValue :: "'a loop_exit \<Rightarrow> 'a" where
  "exitValue (Returned x) = x"
| "exitValue (Completed x) = x"

text \<open>\<open>testcase._attributes.name\<close>, the key of the map of lines 273-291.\<close>

definition nameOf :: "element \<Rightarrow> string option" where
  "nameOf testcase = attr (Some testcase) ''name''"

text \<open>
  The specification's side of the comparison.  The keys of \<open>ks\<close> that are not in \<open>seen\<close>, each
  once, in the order of their first occurrence.
\<close>

fun newKeys :: "'k list \<Rightarrow> 'k list \<Rightarrow> 'k list" where
  "newKeys seen [] = []"
| "newKeys seen (k # ks) = (if k \<in> set seen then newKeys seen ks else k # newKeys (k # seen) ks)"

definition firstOccurrences :: "'k list \<Rightarrow> 'k list" where
  "firstOccurrences ks = newKeys [] ks"

text \<open>
  The case that stands for the name \<open>k\<close>: the first case of that name that has no failure,
  and the first case of that name when all of them fail.
\<close>

definition representative :: "element list \<Rightarrow> string option \<Rightarrow> element option" where
  "representative testcases k =
     (case find (\<lambda>c. nameOf c = k \<and> \<not> hasFailure c) testcases of
        Some p \<Rightarrow> Some p
      | None \<Rightarrow> find (\<lambda>c. nameOf c = k) testcases)"

text \<open>What one more case of the name does to the representative: lines 278-287.\<close>

definition retry :: "element option \<Rightarrow> element \<Rightarrow> element option" where
  "retry previous testcase =
     (case previous of
        None \<Rightarrow> Some testcase
      | Some p \<Rightarrow> if \<not> hasFailure testcase \<and> hasFailure p then Some testcase else Some p)"

section \<open>Example reports\<close>

text \<open>
  Collaborators for worked examples: the globber yields \<open>files\<close> for the pattern
  \<open>reports/*.xml\<close>, a file's content is its name, and the content parses to the document
  that \<open>documents\<close> lists for it and fails to parse otherwise.
\<close>

definition exampleEnv :: "string list \<Rightarrow> (string \<times> element) list \<Rightarrow> env" where
  "exampleEnv files documents =
     \<lparr>glob = (\<lambda>pattern follow. ([''/w''], if pattern = ''reports/*.xml'' then files else [])),
      readFileSync = (\<lambda>f. Inr f),
      xml2json = (\<lambda>content. case map_of documents content of
                                None \<Rightarrow> Inl SyntaxError | Some d \<Rightarrow> Inr d),
      applyTransformer = (\<lambda>t s. s),
      regExpMatch = (\<lambda>s p. Inr None),
      pathJoin = (\<lambda>a b. a @ ''/'' @ b),
      githubWorkspace = None\<rparr>"

text \<open>The default arguments of \<open>parseFile\<close> and \<open>parseTestReports\<close>.\<close>

definition defaultOptions :: options where
  "defaultOptions =
     \<lparr>suiteRegex = [], annotatePassed = False, checkRetries = False,
      excludeSources = [''/build/'', ''/__pycache__/''], checkTitleTemplate = None,
      testFilesPrefix = [], transformer = [], followSymlink = False,
      annotationsLimit = - 1, truncateStackTraces = True\<rparr>"

text \<open>An element with attributes and children only, and the empty element \<open><failure/>\<close>.\<close>

definition node :: "(string \<times> string) list \<Rightarrow> (string \<times> element child) list \<Rightarrow> element" where
  "node as cs = Element (Some as) None None cs"

definition bare :: element where
  "bare = Element None None None []"

text \<open>
  One suite with a passing case, a failing case, a failing case with \<open>status="ignored"\<close>
  and a case with a \<open>skipped\<close> child.
\<close>

definition mixedReport :: element where
  "mixedReport =
     Element None None None
       [(''testsuite'', Single (node [(''name'', ''Suite'')]
          [(''testcase'', Many
             [node [(''name'', ''ok'')] [],
              node [(''name'', ''bad'')] [(''failure'', Single bare)],
              node [(''name'', ''ign''), (''status'', ''ignored'')] [(''failure'', Single bare)],
              node [(''name'', ''sk'')] [(''skipped'', Single bare)]])]))]"

definition mixedAnnotations :: "Annotation list" where
  "mixedAnnotations =
     [\<lparr>path = ''ok'', start_line = 1, end_line = 1, start_column = 0, end_column = 0,
       annotation_level = Notice, status = Success,
       title = ''ok'', message = ''ok'', raw_details = []\<rparr>,
      \<lparr>path = ''bad'', start_line = 1, end_line = 1, start_column = 0, end_column = 0,
       annotation_level = Failure, status = Failed,
       title = ''bad'', message = ''bad'', raw_details = []\<rparr>,
      \<lparr>path = ''ign'', start_line = 1, end_line = 1, start_column = 0, end_column = 0,
       annotation_level = Notice, status = Skipped,
       title = ''ign'', message = ''ign'', raw_details = []\<rparr>,
      \<lparr>path = ''sk'', start_line = 1, end_line = 1, start_column = 0, end_column = 0,
       annotation_level = Notice, status = Skipped,
       title = ''sk'', message = ''sk'', raw_details = []\<rparr>]"


text \<open>
  The document of \<open><testsuites/>\<close>, and a suite that makes \<open>parseSuite\<close> throw: its test
  case has no attributes.
\<close>

definition emptyWrapper :: element where
  "emptyWrapper = Element None None None [(''testsuites'', Single bare)]"

definition brokenSuite :: element where
  "brokenSuite = node [(''name'', ''Broken'')] [(''testcase'', Single bare)]"

text \<open>Test cases with a name and a time, without and with a \<open>failure\<close> child.\<close>

definition passingCase :: "string \<Rightarrow> string \<Rightarrow> element" where
  "passingCase n t = node [(''name'', n), (''time'', t)] []"

definition failingCase :: "string \<Rightarrow> string \<Rightarrow> element" where
  "failingCase n t = node [(''name'', n), (''time'', t)] [(''failure'', Single bare)]"

text \<open>One suite in which the case \<open>T\<close> fails and is run again and passes.\<close>

definition retriedReport :: element where
  "retriedReport =
     Element None None None
       [(''testsuite'', Single (node [(''name'', ''S'')]
          [(''testcase'', Many [failingCase ''T'' ''2'', passingCase ''T'' ''4''])]))]"

text \<open>
  Two top-level suites without test cases of their own, each with one nested suite that
  holds one failing case; and one suite with two failing cases.
\<close>

definition nestedReport :: element where
  "nestedReport =
     Element None None None
       [(''testsuites'', Single (Element None None None
          [(''testsuite'', Many
             [node [(''name'', ''A'')]
                [(''testsuite'', Single (node [(''name'', ''A1'')]
                   [(''testcase'', Single (node [(''name'', ''t1'')] [(''failure'', Single bare)]))]))],
              node [(''name'', ''B'')]
                [(''testsuite'', Single (node [(''name'', ''B1'')]
                   [(''testcase'', Single (node [(''name'', ''t2'')] [(''failure'', Single bare)]))]))]])]))]"

definition flatReport :: element where
  "flatReport =
     Element None None None
       [(''testsuite'', Single (node [(''name'', ''S'')]
          [(''testcase'', Many
             [node [(''name'', ''t1'')] [(''failure'', Single bare)],
              node [(''name'', ''t2'')] [(''failure'', Single bare)]])]))]"

definition failureAnnotation :: "string \<Rightarrow> Annotation" where
  "failureAnnotation n =
     \<lparr>path = n, start_line = 1, end_line = 1, start_column = 0, end_column = 0,
      annotation_level = Failure, status = Failed, title = n, message = n, raw_details = []\<rparr>"

text \<open>A test case with a \<open>time\<close> attribute only, whose failure carries a message.\<close>

definition unnamedCase :: element where
  "unnamedCase =
     node [(''time'', ''1'')]
       [(''failure'', Single (Element (Some [(''message'', ''boom'')]) None None []))]"

definition unnamedReport :: element where
  "unnamedReport =
     Element None None None [(''testsuite'', Single (Element None None None
        [(''testcase'', Single unnamedCase)]))]"

section \<open>Lemmas\<close>

lemma num_or_nonzero: "d \<noteq> 0 \<Longrightarrow> num_or v d \<noteq> 0"
  by (cases v) auto

lemma fromLastItem_line: "line (fromLastItem f m) \<noteq> 0"
  by (simp add: fromLastItem_def Let_def num_or_nonzero)

lemma resolvedFileName_typed: "\<exists>f. resolvedFileName file (Some cls) = Inr f"
  by (simp add: resolvedFileName_def)

lemma tryBlock_line:
  "tryBlock search f n output = Inr (rt, p) \<Longrightarrow> line p \<noteq> 0"
  by (auto simp: tryBlock_def num_or_nonzero fromLastItem_line split: if_splits sum.splits option.splits list.splits)

lemma takeWhile_all: "list_all P (takeWhile P xs)"
  by (induction xs) auto

lemma matchTail_ends: "matchTail s = Some n \<Longrightarrow> endsInLineNumber (take n s)"
proof (induction s arbitrary: n)
  case Nil
  then show ?case by simp
next
  case (Cons c s)
  show ?case
  proof (cases "c = CHR '':'' \<and> takeWhile isDigit s \<noteq> []")
    case True
    with Cons.prems have n: "n = Suc (length (takeWhile isDigit s))" by simp
    have "take (length (takeWhile isDigit s)) s = takeWhile isDigit s"
      by (metis append_eq_conv_conj takeWhile_dropWhile_id)
    with n True have "take n (c # s) = [] @ CHR '':'' # takeWhile isDigit s" by simp
    with True show ?thesis
      unfolding endsInLineNumber_def using takeWhile_all by blast
  next
    case False
    with Cons.prems obtain k where k: "matchTail s = Some k" "n = Suc k"
      by (auto split: if_splits)
    from Cons.IH [OF k(1)] obtain pre ds where
      "take k s = pre @ CHR '':'' # ds" "ds \<noteq> []" "list_all isDigit ds"
      unfolding endsInLineNumber_def by blast
    with k(2) have "take n (c # s) = (c # pre) @ CHR '':'' # ds" by simp
    with \<open>ds \<noteq> []\<close> \<open>list_all isDigit ds\<close> show ?thesis
      unfolding endsInLineNumber_def by blast
  qed
qed

lemma endsInLineNumber_append: "endsInLineNumber m \<Longrightarrow> endsInLineNumber (p @ m)"
  unfolding endsInLineNumber_def by (metis append_assoc)

lemma matchName_ends: "matchName lit k s = Some n \<Longrightarrow> endsInLineNumber (take n s)"
proof (induction k arbitrary: n)
  case 0
  then obtain j where j: "matchTail (drop (length lit) s) = Some j" "n = length lit + j"
    by (auto split: if_splits option.splits)
  have "take n s = take (length lit) s @ take j (drop (length lit) s)"
    using j(2) by (simp add: take_add)
  with matchTail_ends [OF j(1)] show ?case
    by (simp add: endsInLineNumber_append)
next
  case (Suc k)
  show ?case
  proof (cases "if take (length lit) (drop (Suc k) s) = lit
            then matchTail (drop (Suc k + length lit) s) else None")
    case None
    with Suc.prems have "matchName lit k s = Some n" by simp
    then show ?thesis by (rule Suc.IH)
  next
    case (Some j)
    then have j: "matchTail (drop (Suc k + length lit) s) = Some j"
      by (auto split: if_splits)
    from Some Suc.prems have n: "n = Suc k + length lit + j" by simp
    have "take n s = take (Suc k + length lit) s @ take j (drop (Suc k + length lit) s)"
      unfolding n by (simp only: take_add)
    with matchTail_ends [OF j] show ?thesis
      by (simp add: endsInLineNumber_append)
  qed
qed

lemma matchAt_ends: "matchAt lit s = Some n \<Longrightarrow> endsInLineNumber (take n s)"
proof (cases s)
  case Nil
  assume "matchAt lit s = Some n"
  with Nil show ?thesis by (simp add: matchAt_def)
next
  case (Cons c r)
  assume "matchAt lit s = Some n"
  with Cons obtain k where k: "matchName lit (length (takeWhile (\<lambda>x. x \<noteq> CHR '' '') r)) r = Some k" "n = Suc k"
    by (auto simp: matchAt_def split: if_splits)
  from matchName_ends [OF k(1)] have "endsInLineNumber ([c] @ take k r)"
    by (rule endsInLineNumber_append)
  with Cons k(2) show ?thesis by simp
qed

lemma scanMatches_ends: "m \<in> set (scanMatches lit skip s) \<Longrightarrow> endsInLineNumber m"
proof (induction lit skip s rule: scanMatches.induct)
  case (1 lit skip)
  then show ?case by simp
next
  case (2 lit skip c s)
  then show ?case by simp
next
  case (3 lit c s)
  show ?case
  proof (cases "matchAt lit (c # s)")
    case None
    with 3 show ?thesis by simp
  next
    case (Some n)
    with "3.prems" have "m = take n (c # s) \<or> m \<in> set (scanMatches lit (n - 1) s)" by simp
    then show ?thesis
    proof
      assume "m = take n (c # s)"
      with matchAt_ends [OF Some] show ?thesis by simp
    next
      assume "m \<in> set (scanMatches lit (n - 1) s)"
      with "3.IH"(2) [OF Some] show ?thesis .
    qed
  qed
qed

lemma split_on_nonempty: "split_on c s \<noteq> []"
  by (induction s) (auto split: list.splits)

lemma split_on_no_separator: "c \<notin> set s \<Longrightarrow> split_on c s = [s]"
  by (induction s) auto

lemma split_on_append: "split_on c (pre @ c # s) = split_on c pre @ split_on c s"
proof (induction pre)
  case Nil
  show ?case by simp
next
  case (Cons x pre)
  obtain t ts where "split_on c pre = t # ts"
    using split_on_nonempty [of c pre] by (cases "split_on c pre") auto
  with Cons show ?case by simp
qed

lemma isDigit_range: "isDigit c = (48 \<le> (of_char c :: nat) \<and> (of_char c :: nat) \<le> 57)"
  by (auto simp: isDigit_def isRadixDigit_def digitValue_def Let_def)

lemma digit_not_space: "isDigit c \<Longrightarrow> \<not> isWhiteSpace c"
  by (auto simp: isDigit_range isWhiteSpace_def)

lemma digit_not_sign: "isDigit c \<Longrightarrow> c \<noteq> CHR ''-'' \<and> c \<noteq> CHR ''+'' \<and> c \<noteq> CHR ''x'' \<and> c \<noteq> CHR ''X'' \<and> c \<noteq> CHR '':''"
  by (auto simp: isDigit_range)

lemma last_token_digits:
  assumes "ds \<noteq> []" "list_all isDigit ds"
  shows "last (split_on CHR '':'' (pre @ CHR '':'' # ds)) = ds"
proof -
  have "CHR '':'' \<notin> set ds"
    using assms(2) digit_not_sign by (auto simp: list_all_iff)
  then have "split_on CHR '':'' ds = [ds]" by (rule split_on_no_separator)
  then show ?thesis by (simp add: split_on_append)
qed

lemma parseInt_digits:
  assumes "ds \<noteq> []" "list_all isDigit ds"
  shows "parseInt ds = Some (int (radixValue 10 ds))"
proof -
  obtain d rest where ds: "ds = d # rest" using assms(1) by (cases ds) auto
  with assms(2) have d: "isDigit d" and rest: "list_all isDigit rest" by simp_all
  have space: "\<not> isWhiteSpace d" using d by (rule digit_not_space)
  have sign: "d \<noteq> CHR ''-''" "d \<noteq> CHR ''+''" using digit_not_sign [OF d] by simp_all
  have hex: "take 2 (d # rest) \<noteq> ''0x''" "take 2 (d # rest) \<noteq> ''0X''"
    using rest digit_not_sign by (cases rest; auto)+
  have z: "takeWhile (isRadixDigit 10) (d # rest) = d # rest"
    using assms(2) ds by (simp add: takeWhile_eq_all_conv list_all_iff isDigit_def)
  have s0: "dropWhile isWhiteSpace (d # rest) = d # rest"
    using space by simp
  have one: "take 1 (d # rest) = [d]" by simp
  have "parseInt (d # rest) = Some (int (radixValue 10 (d # rest)))"
    unfolding parseInt_def Let_def s0 one
    using sign by (simp add: hex z del: takeWhile.simps take_Cons_numeral)
  with ds show ?thesis by simp
qed

lemma fromLastItem_positive:
  assumes "endsInLineNumber m"
  shows "0 < line (fromLastItem f m) \<or> line (fromLastItem f m) = - 1"
proof -
  from assms obtain pre ds where m: "m = pre @ CHR '':'' # ds" and ds: "ds \<noteq> []" "list_all isDigit ds"
    unfolding endsInLineNumber_def by blast
  have tok: "last (split_on CHR '':'' m) = ds"
    unfolding m using ds by (rule last_token_digits)
  have "safeParseInt (Some ds) = Some (int (radixValue 10 ds))"
    using ds by (simp add: safeParseInt_def truthy_def parseInt_digits)
  with tok ds(1) show ?thesis
    by (simp add: fromLastItem_def Let_def)
qed

lemma regExpMatchAll_results:
  "regExpMatchAll escaped output = Inr None
   \<or> (\<exists>ms. regExpMatchAll escaped output = Inr (Some ms) \<and> ms \<noteq> [] \<and> endsInLineNumber (last ms))"
proof (cases "scanMatches (patternLiteral escaped) 0 output = []")
  case True
  then show ?thesis by (simp add: regExpMatchAll_def)
next
  case False
  then have "last (scanMatches (patternLiteral escaped) 0 output) \<in> set (scanMatches (patternLiteral escaped) 0 output)"
    by simp
  then have "endsInLineNumber (last (scanMatches (patternLiteral escaped) 0 output))"
    by (rule scanMatches_ends)
  with False show ?thesis by (simp add: regExpMatchAll_def)
qed

lemma tryBlock_explicit:
  "f \<noteq> [] \<Longrightarrow> num_or n 0 \<noteq> 0
    \<Longrightarrow> tryBlock search f n output = Inr (Explicit, \<lparr>fileName = f, line = num_or n 0\<rparr>)"
  by (simp add: tryBlock_def)

lemma tryBlock_search:
  "\<not> (f \<noteq> [] \<and> num_or n 0 \<noteq> 0)
    \<Longrightarrow> tryBlock search f n output =
        (case search (escapedFileName f) output of
           Inl e \<Rightarrow> Inl e
         | Inr None \<Rightarrow> Inr (NoMatch, \<lparr>fileName = f, line = num_or n 1\<rparr>)
         | Inr (Some ms) \<Rightarrow>
             if ms = [] then Inl TypeError else Inr (Matched, fromLastItem f (last ms)))"
  by (auto simp: tryBlock_def split: sum.splits option.splits list.splits)

lemma num_or_truthy: "(num_or n 0 \<noteq> 0) = (\<exists>k. n = Some k \<and> k \<noteq> 0)"
  by (cases n) auto

lemma tryBlock_routes:
  assumes "tryBlock search f n out = Inr (rt, p)"
  shows "rt = Explicit \<and> n = Some (line p)
       \<or> rt = NoMatch \<and> search (escapedFileName f) out = Inr None
            \<and> (n = Some (line p) \<or> line p = 1 \<and> (n = None \<or> n = Some 0))
       \<or> rt = Matched \<and> (\<exists>ms. search (escapedFileName f) out = Inr (Some ms) \<and> ms \<noteq> []
            \<and> p = fromLastItem f (last ms))"
proof (cases "f \<noteq> [] \<and> num_or n 0 \<noteq> 0")
  case True
  with assms have "rt = Explicit" "line p = num_or n 0"
    by (auto simp: tryBlock_def)
  with True show ?thesis by (cases n) auto
next
  case False
  show ?thesis
  proof (cases "search (escapedFileName f) out")
    case (Inl e)
    with assms False show ?thesis by (simp add: tryBlock_search)
  next
    case (Inr r)
    show ?thesis
    proof (cases r)
      case None
      with assms False Inr have "rt = NoMatch" "line p = num_or n 1"
        by (auto simp: tryBlock_search)
      with Inr None show ?thesis by (cases n) auto
    next
      case (Some ms)
      with assms False Inr show ?thesis
        by (auto simp: tryBlock_search split: if_splits)
    qed
  qed
qed

lemma escapeRegExp_Cons:
  "escapeRegExp (c # s) = (if isRegExpSpecial c then CHR 0x5C # c # escapeRegExp s else c # escapeRegExp s)"
  by (simp add: escapeRegExp_def)

lemma plain_not_backslash: "\<not> isRegExpSpecial c \<Longrightarrow> c \<noteq> CHR 0x5C"
  by (simp add: isRegExpSpecial_def)

lemma patternLiteral_plain: "c \<noteq> CHR 0x5C \<Longrightarrow> patternLiteral (c # r) = c # patternLiteral r"
  by (cases r) simp_all

lemma patternLiteral_escapeRegExp: "patternLiteral (escapeRegExp s) = s"
proof (induction s)
  case Nil
  show ?case by (simp add: escapeRegExp_def)
next
  case (Cons c s)
  show ?case
  proof (cases "isRegExpSpecial c")
    case True
    with Cons show ?thesis by (simp add: escapeRegExp_Cons)
  next
    case False
    from plain_not_backslash [OF False] Cons False show ?thesis
      by (simp add: escapeRegExp_Cons patternLiteral_plain del: patternLiteral.simps)
  qed
qed

lemma annotate_result:
  assumes "annotate e opt testsuite suiteName testcase = Inr (skip, a)"
  shows "\<exists>as. x_attributes testcase = Some as \<and> skip = isSkip testcase as
           \<and> status a = (if skip then Skipped else if hasFailure testcase then Failed else Success)
           \<and> annotation_level a = (if hasFailure testcase \<and> \<not> skip then Failure else Notice)"
  using assms
  by (auto simp: annotate_def Let_def split: option.splits sum.splits)

lemma annotate_skipIsNotice:
  "annotate e opt testsuite suiteName testcase = Inr (skip, a)
    \<Longrightarrow> skipIsNotice a \<and> (status a = Skipped) = skip"
  by (drule annotate_result) (auto simp: skipIsNotice_def split: if_splits)

lemma wellCounted_empty: "wellCounted emptyResult"
  by (simp add: wellCounted_def emptyResult_def skippedCount_def)

lemma wellCounted_add:
  "wellCounted acc \<Longrightarrow> wellCounted r
    \<Longrightarrow> wellCounted \<lparr>totalCount = totalCount acc + totalCount r,
                       skipped = skipped acc + skipped r,
                       annotations = annotations acc @ annotations r\<rparr>"
  by (simp add: wellCounted_def skippedCount_def)

lemma wellCounted_push:
  "wellCounted acc \<Longrightarrow> skipIsNotice a \<Longrightarrow> (status a = Skipped) = skip
    \<Longrightarrow> wellCounted \<lparr>totalCount = totalCount acc + 1,
                       skipped = (if skip then skipped acc + 1 else skipped acc),
                       annotations = annotations acc @ [a]\<rparr>"
  by (simp add: wellCounted_def skippedCount_def)

lemma testcasesLoop_wellCounted:
  "wellCounted acc \<Longrightarrow> testcasesLoop e opt testsuite suiteName testcases acc = Inr ex
    \<Longrightarrow> wellCounted (exitValue ex)"
proof (induction testcases arbitrary: acc)
  case Nil
  then show ?case by auto
next
  case (Cons testcase rest)
  from Cons.prems(2) obtain skip a where
    ann: "annotate e opt testsuite suiteName testcase = Inr (skip, a)"
    by (auto split: sum.splits)
  let ?acc1 = "\<lparr>totalCount = totalCount acc + 1,
                 skipped = (if skip then skipped acc + 1 else skipped acc),
                 annotations = annotations acc @ [a]\<rparr>"
  from annotate_skipIsNotice [OF ann] Cons.prems(1)
  have wc: "wellCounted ?acc1" by (simp add: wellCounted_push)
  show ?case
  proof (cases "limitReached opt (annotations ?acc1)")
    case True
    with Cons.prems(2) ann have "ex = Returned ?acc1" by (simp add: Let_def)
    with wc show ?thesis by simp
  next
    case False
    with Cons.prems(2) ann
    have "testcasesLoop e opt testsuite suiteName rest ?acc1 = Inr ex" by (simp add: Let_def)
    from Cons.IH [OF wc this] show ?thesis .
  qed
qed

lemma parseSuite_suitesLoop_wellCounted:
  "(parseSuite e opt suite parentName = Inr r \<longrightarrow> wellCounted r)"
  "(wellCounted acc \<longrightarrow> suitesLoop e opt parentName suites acc = Inr r' \<longrightarrow> wellCounted r')"
proof (induction e opt suite parentName and e opt parentName suites acc
        arbitrary: r and r' rule: parseSuite_suitesLoop.induct)
  case (1 e opt suite parentName)
  show ?case
  proof (cases "getChild suite ''testsuite'' = None \<and> getChild suite ''testsuites'' = None")
    case True
    then show ?thesis by (auto simp: parseSuite.simps wellCounted_empty)
  next
    case False
    with 1 [OF False] show ?thesis by (simp add: parseSuite.simps wellCounted_empty)
  qed
next
  case (2 e opt parentName acc)
  show ?case by auto
next
  case (3 e opt parentName rest acc)
  show ?case by auto
next
  case (4 e opt parentName testsuite rest acc)
  show ?case
  proof (intro impI)
    assume acc: "wellCounted acc"
    assume run: "suitesLoop e opt parentName (Some testsuite # rest) acc = Inr r'"
    from run obtain suiteName where sn: "suiteNameOf e opt parentName testsuite = Inr suiteName"
      by (auto split: sum.splits)
    from run sn obtain res where res: "parseSuite e opt testsuite suiteName = Inr res"
      by (auto split: sum.splits)
    let ?acc1 = "\<lparr>totalCount = totalCount acc + totalCount res,
                   skipped = skipped acc + skipped res,
                   annotations = annotations acc @ annotations res\<rparr>"
    from "4.IH"(1) [OF sn] res have "wellCounted res" by simp
    with acc have wc1: "wellCounted ?acc1" by (rule wellCounted_add)
    show "wellCounted r'"
    proof (cases "getChild testsuite ''testcase''")
      case None
      with run sn res have "suitesLoop e opt parentName rest ?acc1 = Inr r'"
        by (simp add: Let_def)
      with "4.IH"(2) [OF sn res refl None] wc1 show ?thesis by simp
    next
      case (Some c)
      show ?thesis
      proof (cases "limitReached opt (annotations ?acc1)")
        case True
        with run sn res Some have "r' = ?acc1" by (simp add: Let_def)
        with wc1 show ?thesis by simp
      next
        case False
        from run sn res Some False obtain testcases where
          tcs: "(if checkRetries opt then dropRetries (asArray c) else Inr (asArray c)) = Inr testcases"
          by (auto simp: Let_def split: sum.splits)
        from run sn res Some False tcs obtain ex where
          ex: "testcasesLoop e opt testsuite suiteName testcases ?acc1 = Inr ex"
          by (auto simp: Let_def split: sum.splits)
        from testcasesLoop_wellCounted [OF wc1 ex] have wc2: "wellCounted (exitValue ex)" .
        show ?thesis
        proof (cases ex)
          case (Returned acc2)
          with run sn res Some False tcs ex have "r' = acc2" by (simp add: Let_def)
          with wc2 Returned show ?thesis by simp
        next
          case (Completed acc2)
          with run sn res Some False tcs ex
          have "suitesLoop e opt parentName rest acc2 = Inr r'" by (simp add: Let_def)
          with "4.IH"(3) [OF sn res refl Some False tcs ex Completed] wc2 Completed
          show ?thesis by simp
        qed
      qed
    qed
  qed
qed

lemma parseSuite_wellCounted: "parseSuite e opt suite parentName = Inr r \<Longrightarrow> wellCounted r"
  using parseSuite_suitesLoop_wellCounted(1) by blast

lemma parseFile_wellCounted: "parseFile e opt f = Inr r \<Longrightarrow> wellCounted r"
  by (auto simp: parseFile_def wellCounted_def skippedCount_def
           split: sum.splits dest: parseSuite_wellCounted)

lemma reportsLoop_wellCounted:
  "wellCounted acc \<Longrightarrow> reportsLoop e opt files acc n = Inr (r, m) \<Longrightarrow> wellCounted r"
proof (induction files arbitrary: acc n)
  case Nil
  then show ?case by simp
next
  case (Cons f rest)
  from Cons.prems(2) obtain res where res: "parseFile e opt f = Inr res"
    by (auto split: sum.splits)
  from parseFile_wellCounted [OF res] have wr: "wellCounted res" .
  let ?acc1 = "\<lparr>totalCount = totalCount acc + totalCount res,
                 skipped = skipped acc + skipped res,
                 annotations = annotations acc @ annotations res\<rparr>"
  from Cons.prems(1) wr have wc1: "wellCounted ?acc1" by (rule wellCounted_add)
  show ?case
  proof (cases "totalCount res = 0")
    case True
    with Cons.prems(2) res have "reportsLoop e opt rest acc (n + 1) = Inr (r, m)" by simp
    from Cons.IH [OF Cons.prems(1) this] show ?thesis .
  next
    case False
    show ?thesis
    proof (cases "limitReached opt (annotations ?acc1)")
      case True
      with Cons.prems(2) res False have "r = ?acc1" by (simp add: Let_def)
      with wc1 show ?thesis by simp
    next
      case notyet: False
      with Cons.prems(2) res False have "reportsLoop e opt rest ?acc1 (n + 1) = Inr (r, m)"
        by (simp add: Let_def)
      from Cons.IH [OF wc1 this] show ?thesis .
    qed
  qed
qed

lemma parseTestReports_result:
  assumes "parseTestReports e opt name text reportPaths = Inr r"
  shows "\<exists>acc. wellCounted acc \<and> totalCount r = totalCount acc \<and> skipped r = skipped acc
           \<and> annotations r = annotations acc
           \<and> failed r = failureCount (annotations acc)
           \<and> passed r = totalCount acc - failureCount (annotations acc) - skipped acc"
proof -
  from assms obtain acc n where
    loop: "reportsLoop e opt (snd (glob e reportPaths (followSymlink opt))) emptyResult 0 = Inr (acc, n)"
    by (auto simp: parseTestReports_def split: sum.splits)
  from reportsLoop_wellCounted [OF wellCounted_empty loop] have "wellCounted acc" .
  with assms loop show ?thesis
    by (auto simp: parseTestReports_def Let_def failureCount_def)
qed

lemma disjoint_filters:
  "list_all (\<lambda>a. \<not> (P a \<and> Q a)) xs \<Longrightarrow> length (filter P xs) + length (filter Q xs) \<le> length xs"
  by (induction xs) auto

lemma wellCounted_disjoint:
  "wellCounted r \<Longrightarrow> list_all (\<lambda>a. \<not> (annotation_level a = Failure \<and> status a = Skipped)) (annotations r)"
  by (auto simp: wellCounted_def list_all_iff skipIsNotice_def split: if_splits)

lemma wellCounted_bound:
  assumes "wellCounted r"
  shows "failureCount (annotations r) + skipped r \<le> totalCount r"
proof -
  from disjoint_filters [OF wellCounted_disjoint [OF assms]]
  have "length (filter (\<lambda>a. annotation_level a = Failure) (annotations r))
          + length (filter (\<lambda>a. status a = Skipped) (annotations r)) \<le> length (annotations r)" .
  with assms show ?thesis
    by (simp add: wellCounted_def failureCount_def skippedCount_def)
qed

lemma mixedReport_run:
  "parseTestReports (exampleEnv [''a.xml''] [(''a.xml'', mixedReport)]) defaultOptions
      ''check'' ''summary'' ''reports/*.xml''
   = Inr \<lparr>totalCount = 4, skipped = 2, annotations = mixedAnnotations,
          checkName = ''check'', summary = ''summary'', failed = 1, passed = 1, foundFiles = 1\<rparr>"
  by code_simp



lemma suitesLoop_stops_at_falsy:
  "suitesLoop e opt parentName (suites @ None # rest) acc
     = suitesLoop e opt parentName (suites @ [None]) acc"
proof (induction suites arbitrary: acc)
  case Nil
  show ?case by simp
next
  case (Cons s suites)
  show ?case
  proof (cases s)
    case None
    then show ?thesis by simp
  next
    case (Some testsuite)
    then show ?thesis
      by (simp add: Cons.IH Let_def split: sum.splits option.splits loop_exit.splits)
  qed
qed

lemma brokenSuite_throws:
  "suitesLoop (exampleEnv [] []) defaultOptions (NameString []) [Some brokenSuite] emptyResult
     = Inl TypeError"
  by code_simp

lemma before_falsy_run:
  "suitesLoop (exampleEnv [] []) defaultOptions (NameString [])
      [Some (node [(''name'', ''Suite'')] [(''testcase'', Single (node [(''name'', ''ok'')] []))]), None]
      emptyResult
   = Inr \<lparr>totalCount = 1, skipped = 0, annotations = take 1 mixedAnnotations\<rparr>"
  by code_simp

lemma reportsLoop_counter:
  "map_sum id fst (reportsLoop e opt files acc n) = map_sum id fst (reportsLoop e opt files acc m)"
proof (induction files arbitrary: acc n m)
  case Nil
  show ?case by simp
next
  case (Cons f files)
  show ?case
    using Cons.IH [of _ "n + 1" "m + 1"]
    by (simp add: Let_def split: sum.splits)
qed

lemma unparsable_parseFile:
  "readFileSync e f = Inr content \<Longrightarrow> xml2json e content = Inl err
    \<Longrightarrow> parseFile e opt f = Inr \<lparr>totalCount = 0, skipped = 0, annotations = []\<rparr>"
  by (simp add: parseFile_def)

lemma reportsLoop_skips:
  assumes "parseFile e opt f = Inr \<lparr>totalCount = 0, skipped = 0, annotations = []\<rparr>"
  shows "map_sum id fst (reportsLoop e opt (files @ f # rest) acc n)
           = map_sum id fst (reportsLoop e opt (files @ rest) acc n)"
proof (induction files arbitrary: acc n)
  case Nil
  from assms have "reportsLoop e opt (f # rest) acc n = reportsLoop e opt rest acc (n + 1)"
    by simp
  then show ?case
    by (simp only: append_Nil reportsLoop_counter [of e opt rest acc "n + 1" n])
next
  case (Cons g files)
  show ?case using Cons.IH by (simp add: Let_def split: sum.splits)
qed

lemma after_unparsable_run:
  "parseTestReports (exampleEnv [''bad.xml'', ''a.xml''] [(''a.xml'', mixedReport)]) defaultOptions
      ''check'' ''summary'' ''reports/*.xml''
   = Inr \<lparr>totalCount = 4, skipped = 2, annotations = mixedAnnotations,
          checkName = ''check'', summary = ''summary'', failed = 1, passed = 1, foundFiles = 2\<rparr>"
  by code_simp

lemma mapSet_keys:
  "map fst (mapSet k v m) = (if k \<in> set (map fst m) then map fst m else map fst m @ [k])"
  by (induction m) auto

lemma map_of_mapSet: "map_of (mapSet k v m) k' = (if k' = k then Some v else map_of m k')"
  by (induction m) auto

lemma map_of_keys: "(map_of m k = None) = (k \<notin> set (map fst m))"
  by (simp add: map_of_eq_None_iff)

lemma newKeys_seen: "set seen = set seen' \<Longrightarrow> newKeys seen ks = newKeys seen' ks"
proof (induction ks arbitrary: seen seen')
  case Nil
  show ?case by simp
next
  case (Cons k ks)
  from Cons.prems have "set (k # seen) = set (k # seen')" by simp
  from Cons.IH [OF this] Cons.IH [OF Cons.prems] Cons.prems show ?case by simp
qed

lemma newKeys_set: "set (newKeys seen ks) = set ks - set seen"
  by (induction ks arbitrary: seen) auto

lemma newKeys_distinct: "distinct (newKeys seen ks)"
  by (induction ks arbitrary: seen) (auto simp: newKeys_set)

lemma retryLoop_keys:
  "retryLoop testcases m = Inr m'
    \<Longrightarrow> map fst m' = map fst m @ newKeys (map fst m) (map nameOf testcases)"
proof (induction testcases arbitrary: m)
  case Nil
  then show ?case by simp
next
  case (Cons testcase rest)
  from Cons.prems obtain as where as: "x_attributes testcase = Some as"
    by (auto split: option.splits)
  then have key: "nameOf testcase = map_of as ''name''"
    by (simp add: nameOf_def attr_def)
  show ?case
  proof (cases "map_of m (map_of as ''name'')")
    case None
    with Cons.prems as
    have "retryLoop rest (mapSet (map_of as ''name'') testcase m) = Inr m'" by simp
    from Cons.IH [OF this] None
    have "map fst m' = (map fst m @ [map_of as ''name''])
            @ newKeys (map fst m @ [map_of as ''name'']) (map nameOf rest)"
      by (simp add: mapSet_keys map_of_keys)
    moreover have "newKeys (map fst m @ [map_of as ''name'']) (map nameOf rest)
        = newKeys (map_of as ''name'' # map fst m) (map nameOf rest)"
      by (rule newKeys_seen) auto
    ultimately show ?thesis using None key by (simp add: map_of_keys)
  next
    case (Some previous)
    then have present: "map_of as ''name'' \<in> set (map fst m)"
      using map_of_keys [of m "map_of as ''name''"] by simp
    have same: "map fst (mapSet (map_of as ''name'') testcase m) = map fst m"
      using present by (simp only: mapSet_keys if_True)
    define m1 where "m1 =
      (if hasFailure testcase \<and> \<not> hasFailure previous then m
       else if \<not> hasFailure testcase \<and> hasFailure previous
       then mapSet (map_of as ''name'') testcase m else m)"
    from Cons.prems as Some have run: "retryLoop rest m1 = Inr m'"
      by (auto simp: m1_def split: if_splits)
    from same have keys: "map fst m1 = map fst m" by (simp add: m1_def)
    from Cons.IH [OF run] keys present key show ?thesis by simp
  qed
qed

lemma find_snoc:
  "find P (xs @ [x]) = (case find P xs of Some y \<Rightarrow> Some y | None \<Rightarrow> if P x then Some x else None)"
  by (induction xs) auto

lemma find_holds: "find P xs = Some x \<Longrightarrow> P x \<and> x \<in> set xs"
  by (induction xs) (auto split: if_splits)

lemma find_none: "find P xs = None \<Longrightarrow> x \<in> set xs \<Longrightarrow> \<not> P x"
  by (induction xs) (auto split: if_splits)

lemma representative_snoc:
  "representative (done @ [c]) k
     = (if nameOf c = k then retry (representative done k) c else representative done k)"
proof (cases "nameOf c = k")
  case False
  then show ?thesis by (simp add: representative_def find_snoc split: option.splits)
next
  case True
  show ?thesis
  proof (cases "find (\<lambda>c. nameOf c = k \<and> \<not> hasFailure c) done")
    case (Some p)
    from find_holds [OF Some] have "\<not> hasFailure p" by simp
    with True Some show ?thesis
      by (simp add: representative_def find_snoc retry_def)
  next
    case None
    note nopass = None
    show ?thesis
    proof (cases "find (\<lambda>c. nameOf c = k) done")
      case None
      with True nopass show ?thesis
        by (simp add: representative_def find_snoc retry_def)
    next
      case (Some q)
      from find_holds [OF Some] have q: "nameOf q = k" "q \<in> set done" by simp_all
      from find_none [OF nopass q(2)] q(1) have "hasFailure q" by simp
      with True nopass Some show ?thesis
        by (simp add: representative_def find_snoc retry_def)
    qed
  qed
qed

lemma retryLoop_representative:
  "(\<And>k. map_of m k = representative done k) \<Longrightarrow> retryLoop testcases m = Inr m'
    \<Longrightarrow> map_of m' k = representative (done @ testcases) k"
proof (induction testcases arbitrary: m "done")
  case Nil
  then show ?case by simp
next
  case (Cons testcase rest)
  from Cons.prems(2) obtain as where as: "x_attributes testcase = Some as"
    by (auto split: option.splits)
  then have key: "nameOf testcase = map_of as ''name''"
    by (simp add: nameOf_def attr_def)
  define m1 where "m1 =
    (case map_of m (map_of as ''name'') of
       None \<Rightarrow> mapSet (map_of as ''name'') testcase m
     | Some previous \<Rightarrow>
         if hasFailure testcase \<and> \<not> hasFailure previous then m
         else if \<not> hasFailure testcase \<and> hasFailure previous
         then mapSet (map_of as ''name'') testcase m else m)"
  from Cons.prems(2) as have run: "retryLoop rest m1 = Inr m'"
    by (auto simp: m1_def split: option.splits if_splits)
  have step: "map_of m1 j = representative (done @ [testcase]) j" for j
  proof -
    have "map_of m1 j = (if nameOf testcase = j then retry (map_of m j) testcase else map_of m j)"
      unfolding m1_def key
      by (auto simp: map_of_mapSet retry_def split: option.splits)
    then show ?thesis
      by (simp add: representative_snoc Cons.prems(1))
  qed
  from Cons.IH [of m1 "done @ [testcase]", OF step run] show ?case by simp
qed

lemma retryLoop_total:
  "list_all (\<lambda>c. x_attributes c \<noteq> None) testcases \<Longrightarrow> \<exists>m'. retryLoop testcases m = Inr m'"
  by (induction testcases arbitrary: m) (auto simp: Let_def split: option.splits)

lemma representative_name: "representative testcases k = Some v \<Longrightarrow> nameOf v = k \<and> v \<in> set testcases"
  by (auto simp: representative_def split: option.splits dest: find_holds)

lemma values_by_keys:
  "distinct (map fst m) \<Longrightarrow> map Some (map snd m) = map (map_of m) (map fst m)"
  by (induction m) (auto simp: rev_image_eqI)

lemma dropRetries_result:
  assumes "list_all (\<lambda>c. x_attributes c \<noteq> None) testcases"
  shows "\<exists>kept. dropRetries testcases = Inr kept
           \<and> map nameOf kept = firstOccurrences (map nameOf testcases)
           \<and> map Some kept = map (representative testcases) (firstOccurrences (map nameOf testcases))"
proof -
  from retryLoop_total [OF assms] obtain m' where run: "retryLoop testcases [] = Inr m'" by blast
  from retryLoop_keys [OF run] have keys: "map fst m' = firstOccurrences (map nameOf testcases)"
    by (simp add: firstOccurrences_def)
  have rep: "map_of m' k = representative testcases k" for k
    using retryLoop_representative [of "[]" "[]" testcases m' k] run
    by (simp add: representative_def)
  from keys have "distinct (map fst m')" by (simp add: firstOccurrences_def newKeys_distinct)
  from values_by_keys [OF this] have vals: "map Some (map snd m') = map (representative testcases) (map fst m')"
    by (simp add: rep [abs_def])
  have "nameOf (snd kv) = fst kv" if "kv \<in> set m'" for kv
  proof -
    from that \<open>distinct (map fst m')\<close> have "map_of m' (fst kv) = Some (snd kv)" by simp
    with rep [of "fst kv"] representative_name show ?thesis by simp
  qed
  then have names: "map nameOf (map snd m') = map fst m'" by (induction m') auto
  from run have "dropRetries testcases = Inr (map snd m')" by (simp add: dropRetries_def)
  with vals names keys show ?thesis by simp
qed

lemma newKeys_skip: "k \<in> set seen \<Longrightarrow> newKeys seen (xs @ k # ys) = newKeys seen (xs @ ys)"
  by (induction xs arbitrary: seen) auto

lemma newKeys_append: "newKeys seen (xs @ ys) = newKeys seen xs @ newKeys (xs @ seen) ys"
proof (induction xs arbitrary: seen)
  case Nil
  show ?case by simp
next
  case (Cons x xs)
  have a: "newKeys (xs @ x # seen) ys = newKeys (x # xs @ seen) ys"
    by (rule newKeys_seen) auto
  have b: "x \<in> set seen \<Longrightarrow> newKeys (x # xs @ seen) ys = newKeys (xs @ seen) ys"
    by (rule newKeys_seen) auto
  show ?case using a b by (simp add: Cons.IH)
qed

lemma find_append_split:
  "find P (xs @ ys) = (case find P xs of Some x \<Rightarrow> Some x | None \<Rightarrow> find P ys)"
  by (induction xs) auto

lemma find_absent: "(\<And>x. x \<in> set xs \<Longrightarrow> \<not> P x) \<Longrightarrow> find P xs = None"
  by (induction xs) auto

lemma only_one_of_name:
  "distinct (map f xs) \<Longrightarrow> x \<in> set xs \<Longrightarrow> filter (\<lambda>c. f c = f x) xs = [x]"
proof (induction xs)
  case Nil
  then show ?case by simp
next
  case (Cons y xs)
  show ?case
  proof (cases "y = x")
    case True
    from Cons.prems(1) True have "\<And>c. c \<in> set xs \<Longrightarrow> f c \<noteq> f x"
      by (metis distinct.simps(2) image_eqI list.simps(9) set_map)
    then have "filter (\<lambda>c. f c = f x) xs = []" by (simp add: filter_empty_conv)
    with True show ?thesis by simp
  next
    case False
    with Cons.prems have "x \<in> set xs" "f y \<noteq> f x" by auto
    with Cons.IH Cons.prems(1) show ?thesis by simp
  qed
qed

lemma limit_disabled: "annotationsLimit opt \<le> 0 \<Longrightarrow> \<not> limitReached opt anns"
  by (simp add: limitReached_def)

lemma limit_counts_all:
  "annotatePassed opt
    \<Longrightarrow> limitReached opt anns = (0 < annotationsLimit opt \<and> annotationsLimit opt \<le> int (length anns))"
  by (simp add: limitReached_def)

lemma retriedReport_run:
  "parseTestReports (exampleEnv [''r.xml''] [(''r.xml'', retriedReport)])
      (defaultOptions\<lparr>checkRetries := True\<rparr>) ''check'' ''summary'' ''reports/*.xml''
   = Inr \<lparr>totalCount = 1, skipped = 0,
          annotations =
            [\<lparr>path = ''T'', start_line = 1, end_line = 1, start_column = 0, end_column = 0,
              annotation_level = Notice, status = Success,
              title = ''T'', message = ''T'', raw_details = []\<rparr>],
          checkName = ''check'', summary = ''summary'', failed = 0, passed = 1, foundFiles = 1\<rparr>"
  by code_simp

text \<open>
  What \<open>resolveFileAndLine\<close> does when the class name is a string, as its signature says.
  Whatever the search does (it may throw or return anything), a position is returned and its
  line is not zero.  The line is the explicit parsed line at line 65; the explicit parsed
  line if it is not zero and else \<open>1\<close> at line 71; the line that \<open>fromLastItem\<close> reads from
  the last match at line 89; the explicit parsed line or \<open>-1\<close> in the \<open>catch\<close> block.  With the
  search of line 70 itself the \<open>catch\<close> block is never entered, the last match ends in a
  colon and a number, and the line read from it is positive, or \<open>-1\<close> when that number is
  zero.
\<close>

lemma resolveFileAndLine_string_className:
  "\<exists>f. resolvedFileName file (Some cls) = Inr f
     \<and> (\<exists>rt p. resolveFileAndLine_with search file ln (Some cls) out = Inr (rt, p)
          \<and> line p \<noteq> 0
          \<and> (rt = Explicit \<and> safeParseInt ln = Some (line p)
             \<or> rt = NoMatch \<and> search (escapedFileName f) out = Inr None
                  \<and> (safeParseInt ln = Some (line p)
                     \<or> line p = 1 \<and> (safeParseInt ln = None \<or> safeParseInt ln = Some 0))
             \<or> rt = Matched
                  \<and> (\<exists>ms. search (escapedFileName f) out = Inr (Some ms) \<and> ms \<noteq> []
                         \<and> p = fromLastItem f (last ms))
             \<or> rt = Caught \<and> (safeParseInt ln = Some (line p) \<or> line p = - 1)))
     \<and> (\<exists>rt p. resolveFileAndLine_with regExpMatchAll file ln (Some cls) out = Inr (rt, p)
          \<and> resolveFileAndLine file ln (Some cls) out = Inr p
          \<and> line p \<noteq> 0
          \<and> (rt = Explicit \<and> safeParseInt ln = Some (line p)
             \<or> rt = NoMatch \<and> regExpMatchAll (escapedFileName f) out = Inr None
                  \<and> (safeParseInt ln = Some (line p)
                     \<or> line p = 1 \<and> (safeParseInt ln = None \<or> safeParseInt ln = Some 0))
             \<or> rt = Matched
                  \<and> (\<exists>ms. regExpMatchAll (escapedFileName f) out = Inr (Some ms) \<and> ms \<noteq> []
                         \<and> endsInLineNumber (last ms) \<and> p = fromLastItem f (last ms))
                  \<and> (0 < line p \<or> line p = - 1)))"
proof -
  obtain f where f: "resolvedFileName file (Some cls) = Inr f"
    using resolvedFileName_typed by blast
  have general: "\<exists>rt p. resolveFileAndLine_with search file ln (Some cls) out = Inr (rt, p)
          \<and> line p \<noteq> 0
          \<and> (rt = Explicit \<and> safeParseInt ln = Some (line p)
             \<or> rt = NoMatch \<and> search (escapedFileName f) out = Inr None
                  \<and> (safeParseInt ln = Some (line p)
                     \<or> line p = 1 \<and> (safeParseInt ln = None \<or> safeParseInt ln = Some 0))
             \<or> rt = Matched
                  \<and> (\<exists>ms. search (escapedFileName f) out = Inr (Some ms) \<and> ms \<noteq> []
                         \<and> p = fromLastItem f (last ms))
             \<or> rt = Caught \<and> (safeParseInt ln = Some (line p) \<or> line p = - 1))"
  proof (cases "tryBlock search f (safeParseInt ln) out")
    case (Inl e)
    then have run: "resolveFileAndLine_with search file ln (Some cls) out
        = Inr (Caught, \<lparr>fileName = f, line = num_or (safeParseInt ln) (- 1)\<rparr>)"
      using f by (simp add: resolveFileAndLine_with_def)
    have "num_or (safeParseInt ln) (- 1) \<noteq> 0" by (simp add: num_or_nonzero)
    moreover have "safeParseInt ln = Some (num_or (safeParseInt ln) (- 1))
        \<or> num_or (safeParseInt ln) (- 1) = - 1"
      by (cases "safeParseInt ln") auto
    ultimately show ?thesis using run by simp
  next
    case (Inr r)
    obtain rt p where r: "r = (rt, p)" by (cases r)
    from Inr r f have run: "resolveFileAndLine_with search file ln (Some cls) out = Inr (rt, p)"
      by (simp add: resolveFileAndLine_with_def)
    from Inr r have body: "tryBlock search f (safeParseInt ln) out = Inr (rt, p)" by simp
    from tryBlock_line [OF body] have nz: "line p \<noteq> 0" .
    from tryBlock_routes [OF body] have
      "rt = Explicit \<and> safeParseInt ln = Some (line p)
       \<or> rt = NoMatch \<and> search (escapedFileName f) out = Inr None
            \<and> (safeParseInt ln = Some (line p)
               \<or> line p = 1 \<and> (safeParseInt ln = None \<or> safeParseInt ln = Some 0))
       \<or> rt = Matched
            \<and> (\<exists>ms. search (escapedFileName f) out = Inr (Some ms) \<and> ms \<noteq> []
                   \<and> p = fromLastItem f (last ms))
       \<or> rt = Caught \<and> (safeParseInt ln = Some (line p) \<or> line p = - 1)"
      by (elim disjE) simp_all
    with run nz show ?thesis by (intro exI [of _ rt] exI [of _ p] conjI)
  qed
  have real: "\<exists>rt p. resolveFileAndLine_with regExpMatchAll file ln (Some cls) out = Inr (rt, p)
          \<and> resolveFileAndLine file ln (Some cls) out = Inr p
          \<and> line p \<noteq> 0
          \<and> (rt = Explicit \<and> safeParseInt ln = Some (line p)
             \<or> rt = NoMatch \<and> regExpMatchAll (escapedFileName f) out = Inr None
                  \<and> (safeParseInt ln = Some (line p)
                     \<or> line p = 1 \<and> (safeParseInt ln = None \<or> safeParseInt ln = Some 0))
             \<or> rt = Matched
                  \<and> (\<exists>ms. regExpMatchAll (escapedFileName f) out = Inr (Some ms) \<and> ms \<noteq> []
                         \<and> endsInLineNumber (last ms) \<and> p = fromLastItem f (last ms))
                  \<and> (0 < line p \<or> line p = - 1))"
  proof (cases "tryBlock regExpMatchAll f (safeParseInt ln) out")
    case (Inl e)
    have "tryBlock regExpMatchAll f (safeParseInt ln) out \<noteq> Inl e"
      using regExpMatchAll_results [of "escapedFileName f" out]
      by (auto simp: tryBlock_def split: if_splits list.splits)
    with Inl show ?thesis by simp
  next
    case (Inr r)
    obtain rt p where r: "r = (rt, p)" by (cases r)
    from Inr r f have run: "resolveFileAndLine_with regExpMatchAll file ln (Some cls) out = Inr (rt, p)"
      by (simp add: resolveFileAndLine_with_def)
    then have res: "resolveFileAndLine file ln (Some cls) out = Inr p"
      by (simp add: resolveFileAndLine_def)
    from Inr r have body: "tryBlock regExpMatchAll f (safeParseInt ln) out = Inr (rt, p)" by simp
    from tryBlock_line [OF body] have nz: "line p \<noteq> 0" .
    have matched: "endsInLineNumber (last ms) \<and> (0 < line p \<or> line p = - 1)"
      if "regExpMatchAll (escapedFileName f) out = Inr (Some ms)" "p = fromLastItem f (last ms)" for ms
    proof -
      from regExpMatchAll_results [of "escapedFileName f" out] that(1)
      have e: "endsInLineNumber (last ms)" by auto
      from fromLastItem_positive [OF e, of f] that(2) e show ?thesis by simp
    qed
    from tryBlock_routes [OF body] matched have
      "rt = Explicit \<and> safeParseInt ln = Some (line p)
       \<or> rt = NoMatch \<and> regExpMatchAll (escapedFileName f) out = Inr None
            \<and> (safeParseInt ln = Some (line p)
               \<or> line p = 1 \<and> (safeParseInt ln = None \<or> safeParseInt ln = Some 0))
       \<or> rt = Matched
            \<and> (\<exists>ms. regExpMatchAll (escapedFileName f) out = Inr (Some ms) \<and> ms \<noteq> []
                   \<and> endsInLineNumber (last ms) \<and> p = fromLastItem f (last ms))
            \<and> (0 < line p \<or> line p = - 1)"
      by (elim disjE exE conjE) auto
    with run res nz show ?thesis by (intro exI [of _ rt] exI [of _ p] conjI)
  qed
  from f general real show ?thesis by (intro exI [of _ f] conjI)
qed

section \<open>The claims\<close>

text \<open>
  Claim C1.  Every TestResult that \<open>parseTestReports\<close> returns has
  \<open>totalCount = passed + failed + skipped\<close>, \<open>failed\<close> equal to the number of annotations of
  level \<open>failure\<close>, and at most \<open>totalCount\<close> annotations.
\<close>

theorem parseTestReports_counts:
  assumes "parseTestReports e opt name text reportPaths = Inr r"
  shows "totalCount r = passed r + failed r + skipped r
       \<and> failed r = int (length (filter (\<lambda>a. annotation_level a = Failure) (annotations r)))
       \<and> int (length (annotations r)) \<le> totalCount r"
proof -
  from parseTestReports_result [OF assms] obtain acc where
    "wellCounted acc" "totalCount r = totalCount acc" "skipped r = skipped acc"
    "annotations r = annotations acc" "failed r = failureCount (annotations acc)"
    "passed r = totalCount acc - failureCount (annotations acc) - skipped acc"
    by blast
  then show ?thesis by (simp add: wellCounted_def failureCount_def)
qed

text \<open>Claim C1 on the report with one passing, one failing and two skipped cases.\<close>

theorem parseTestReports_counts_witness:
  "\<exists>r. parseTestReports (exampleEnv [''a.xml''] [(''a.xml'', mixedReport)]) defaultOptions
          ''check'' ''summary'' ''reports/*.xml'' = Inr r
       \<and> totalCount r = 4 \<and> passed r = 1 \<and> failed r = 1 \<and> skipped r = 2
       \<and> totalCount r = passed r + failed r + skipped r
       \<and> failed r = int (length (filter (\<lambda>a. annotation_level a = Failure) (annotations r)))
       \<and> int (length (annotations r)) \<le> totalCount r"
  using parseTestReports_counts [OF mixedReport_run] mixedReport_run by simp

text \<open>
  Claim C2 fails on the code.  With \<open>annotationsLimit = 1\<close> the report with two failing cases
  in one suite gives one annotation, but the report whose failing cases sit in nested
  suites gives two annotations of level \<open>failure\<close>: a suite without test cases of its own
  takes the \<open>continue\<close> of line 257 and skips the check of lines 258-262, and the
  recursive call for the next suite counts from zero.
\<close>

theorem annotationsLimit_exceeded_in_nested_suites:
  "parseTestReports (exampleEnv [''n.xml''] [(''n.xml'', nestedReport)])
      (defaultOptions\<lparr>annotationsLimit := 1\<rparr>) ''check'' ''summary'' ''reports/*.xml''
     = Inr \<lparr>totalCount = 2, skipped = 0,
            annotations = [failureAnnotation ''t1'', failureAnnotation ''t2''],
            checkName = ''check'', summary = ''summary'', failed = 2, passed = 0, foundFiles = 1\<rparr>
   \<and> parseTestReports (exampleEnv [''f.xml''] [(''f.xml'', flatReport)])
      (defaultOptions\<lparr>annotationsLimit := 1\<rparr>) ''check'' ''summary'' ''reports/*.xml''
     = Inr \<lparr>totalCount = 1, skipped = 0,
            annotations = [failureAnnotation ''t1''],
            checkName = ''check'', summary = ''summary'', failed = 1, passed = 0, foundFiles = 1\<rparr>"
  by code_simp

text \<open>
  Claim C3.  For test cases that all have attributes, \<open>dropRetries\<close> (the loop of lines
  273-292, run when \<open>checkRetries\<close> is set) returns one case for every distinct name, in the
  order in which the names first occur; the case kept for a name is the first one of that
  name without a failure, and the first one of that name when all of them fail.  For two cases
  of one name this is the second when the first fails and the second passes, and the first
  otherwise.  When the failing and the passing case of a name stand anywhere in a suite, with
  no other case of that name, the passing case is the only one of that name in the result,
  at the place of the failing one.
\<close>

theorem dropRetries_first_occurrence_order:
  "(list_all (\<lambda>c. x_attributes c \<noteq> None) testcases
      \<longrightarrow> (\<exists>kept. dropRetries testcases = Inr kept
             \<and> map nameOf kept = firstOccurrences (map nameOf testcases)
             \<and> map Some kept
                 = map (representative testcases) (firstOccurrences (map nameOf testcases))))
   \<and> (x_attributes a \<noteq> None \<and> x_attributes b \<noteq> None \<and> nameOf a = nameOf b
      \<longrightarrow> dropRetries [a, b] = Inr [if hasFailure a \<and> \<not> hasFailure b then b else a])
   \<and> (list_all (\<lambda>c. x_attributes c \<noteq> None) (pre @ a # mid @ b # post)
        \<and> nameOf a = nameOf b \<and> nameOf a \<notin> set (map nameOf (pre @ mid @ post))
        \<and> hasFailure a \<and> \<not> hasFailure b
      \<longrightarrow> (\<exists>kept. dropRetries (pre @ a # mid @ b # post) = Inr kept
             \<and> filter (\<lambda>c. nameOf c = nameOf a) kept = [b]
             \<and> map nameOf kept
                 = firstOccurrences (map nameOf pre)
                   @ nameOf a # newKeys (nameOf a # map nameOf pre) (map nameOf (mid @ post))))"
proof (intro conjI impI)
  assume "list_all (\<lambda>c. x_attributes c \<noteq> None) testcases"
  then show "\<exists>kept. dropRetries testcases = Inr kept
             \<and> map nameOf kept = firstOccurrences (map nameOf testcases)
             \<and> map Some kept
                 = map (representative testcases) (firstOccurrences (map nameOf testcases))"
    by (rule dropRetries_result)
next
  assume "x_attributes a \<noteq> None \<and> x_attributes b \<noteq> None \<and> nameOf a = nameOf b"
  then obtain as bs where
    "x_attributes a = Some as" "x_attributes b = Some bs" "map_of as ''name'' = map_of bs ''name''"
    by (auto simp: nameOf_def attr_def)
  then show "dropRetries [a, b] = Inr [if hasFailure a \<and> \<not> hasFailure b then b else a]"
    by (auto simp: dropRetries_def Let_def)
next
  let ?cs = "pre @ a # mid @ b # post"
  let ?n = "nameOf a"
  assume h: "list_all (\<lambda>c. x_attributes c \<noteq> None) ?cs
        \<and> nameOf a = nameOf b \<and> nameOf a \<notin> set (map nameOf (pre @ mid @ post))
        \<and> hasFailure a \<and> \<not> hasFailure b"
  then have attrs: "list_all (\<lambda>c. x_attributes c \<noteq> None) ?cs" by (elim conjE)
  from dropRetries_result [OF attrs] obtain kept where
    run: "dropRetries ?cs = Inr kept" and
    names: "map nameOf kept = firstOccurrences (map nameOf ?cs)" and
    reps: "map Some kept = map (representative ?cs) (firstOccurrences (map nameOf ?cs))"
    by blast
  let ?P = "\<lambda>c. nameOf c = ?n \<and> \<not> hasFailure c"
  from h have "?n \<notin> set (map nameOf (pre @ mid @ post))" by (elim conjE)
  then have notin: "?n \<notin> nameOf ` (set pre \<union> set mid \<union> set post)"
    by (simp add: image_Un)
  have other: "nameOf x \<noteq> ?n" if "x \<in> set pre \<union> set mid" for x
  proof
    assume "nameOf x = ?n"
    with that have "?n \<in> nameOf ` (set pre \<union> set mid \<union> set post)"
      by (metis UnCI image_eqI)
    with notin show False by simp
  qed
  have "find ?P pre = None" using other by (intro find_absent) simp
  moreover have "find ?P mid = None" using other by (intro find_absent) simp
  ultimately have "find ?P ?cs = Some b" using h by (simp add: find_append_split)
  then have rep: "representative ?cs ?n = Some b" by (simp add: representative_def)
  have "?n \<in> set (firstOccurrences (map nameOf ?cs))"
    by (simp add: firstOccurrences_def newKeys_set)
  then have "representative ?cs ?n \<in> set (map (representative ?cs) (firstOccurrences (map nameOf ?cs)))"
    by simp
  with rep reps have "Some b \<in> set (map Some kept)" by simp
  then have b: "b \<in> set kept" by auto
  from names have "distinct (map nameOf kept)" by (simp add: firstOccurrences_def newKeys_distinct)
  from only_one_of_name [OF this b] h have one: "filter (\<lambda>c. nameOf c = ?n) kept = [b]" by simp
  from h have eq: "nameOf b = ?n" by simp
  from notin have fresh: "?n \<notin> set (map nameOf pre)" by (simp add: image_Un)
  have "firstOccurrences (map nameOf ?cs)
      = newKeys [] (map nameOf pre) @ newKeys (map nameOf pre) (?n # map nameOf mid @ ?n # map nameOf post)"
    using newKeys_append [of "[]" "map nameOf pre"] by (simp add: firstOccurrences_def eq)
  also have "newKeys (map nameOf pre) (?n # map nameOf mid @ ?n # map nameOf post)
      = ?n # newKeys (?n # map nameOf pre) (map nameOf mid @ ?n # map nameOf post)"
    using fresh by (simp only: newKeys.simps if_False)
  also have "newKeys (?n # map nameOf pre) (map nameOf mid @ ?n # map nameOf post)
      = newKeys (?n # map nameOf pre) (map nameOf mid @ map nameOf post)"
    by (rule newKeys_skip) simp
  finally have "firstOccurrences (map nameOf ?cs)
      = firstOccurrences (map nameOf pre)
        @ ?n # newKeys (?n # map nameOf pre) (map nameOf (mid @ post))"
    by (simp add: firstOccurrences_def)
  with run one names show "\<exists>kept. dropRetries ?cs = Inr kept
             \<and> filter (\<lambda>c. nameOf c = nameOf a) kept = [b]
             \<and> map nameOf kept
                 = firstOccurrences (map nameOf pre)
                   @ nameOf a # newKeys (nameOf a # map nameOf pre) (map nameOf (mid @ post))"
    by simp
qed

text \<open>
  Claim C3 on the two cases of \<open>T\<close>, on the report that holds them, parsed with
  \<open>checkRetries\<close>, and on a suite of four cases: \<open>A\<close> passes, \<open>T\<close> fails, \<open>B\<close> fails,
  \<open>T\<close> passes.
\<close>

theorem dropRetries_first_occurrence_order_witness:
  "dropRetries [failingCase ''T'' ''2'', passingCase ''T'' ''4''] = Inr [passingCase ''T'' ''4'']
   \<and> map_sum id (\<lambda>r. map (\<lambda>a. (title a, status a)) (annotations r))
        (parseTestReports (exampleEnv [''r.xml''] [(''r.xml'', retriedReport)])
           (defaultOptions\<lparr>checkRetries := True\<rparr>) ''check'' ''summary'' ''reports/*.xml'')
       = Inr [(''T'', Success)]
   \<and> dropRetries [failingCase ''T'' ''1'', failingCase ''T'' ''2''] = Inr [failingCase ''T'' ''1'']
   \<and> dropRetries [passingCase ''T'' ''1'', passingCase ''T'' ''2''] = Inr [passingCase ''T'' ''1'']
   \<and> dropRetries [passingCase ''A'' ''1'', failingCase ''T'' ''2'', failingCase ''B'' ''3'',
                   passingCase ''T'' ''4'']
       = Inr [passingCase ''A'' ''1'', passingCase ''T'' ''4'', failingCase ''B'' ''3'']
   \<and> (\<exists>kept. dropRetries [passingCase ''A'' ''1'', failingCase ''T'' ''2'', failingCase ''B'' ''3'',
                           passingCase ''T'' ''4''] = Inr kept
          \<and> filter (\<lambda>c. nameOf c = Some ''T'') kept = [passingCase ''T'' ''4'']
          \<and> map nameOf kept = [Some ''A'', Some ''T'', Some ''B'']
          \<and> map Some kept
              = map (representative [passingCase ''A'' ''1'', failingCase ''T'' ''2'',
                                     failingCase ''B'' ''3'', passingCase ''T'' ''4''])
                  [Some ''A'', Some ''T'', Some ''B''])"
proof -
  let ?A = "passingCase ''A'' ''1''" and ?f = "failingCase ''T'' ''2''"
  let ?B = "failingCase ''B'' ''3''" and ?p = "passingCase ''T'' ''4''"
  let ?L = "[?A, ?f, ?B, ?p]"
  have h1: "list_all (\<lambda>c. x_attributes c \<noteq> None) ?L" by code_simp
  have h2: "x_attributes ?f \<noteq> None \<and> x_attributes ?p \<noteq> None \<and> nameOf ?f = nameOf ?p"
    by code_simp
  have h3: "nameOf ?f = nameOf ?p \<and> nameOf ?f \<notin> set (map nameOf [?A, ?B])
              \<and> hasFailure ?f \<and> \<not> hasFailure ?p"
    by code_simp
  have n: "nameOf ?f = Some ''T''" by code_simp
  have names: "firstOccurrences (map nameOf ?L) = [Some ''A'', Some ''T'', Some ''B'']"
    by code_simp
  have inst: "(list_all (\<lambda>c. x_attributes c \<noteq> None) ?L
      \<longrightarrow> (\<exists>kept. dropRetries ?L = Inr kept
             \<and> map nameOf kept = firstOccurrences (map nameOf ?L)
             \<and> map Some kept = map (representative ?L) (firstOccurrences (map nameOf ?L))))
   \<and> (x_attributes ?f \<noteq> None \<and> x_attributes ?p \<noteq> None \<and> nameOf ?f = nameOf ?p
      \<longrightarrow> dropRetries [?f, ?p] = Inr [if hasFailure ?f \<and> \<not> hasFailure ?p then ?p else ?f])
   \<and> (list_all (\<lambda>c. x_attributes c \<noteq> None) ?L
        \<and> nameOf ?f = nameOf ?p \<and> nameOf ?f \<notin> set (map nameOf [?A, ?B])
        \<and> hasFailure ?f \<and> \<not> hasFailure ?p
      \<longrightarrow> (\<exists>kept. dropRetries ?L = Inr kept
             \<and> filter (\<lambda>c. nameOf c = nameOf ?f) kept = [?p]
             \<and> map nameOf kept
                 = firstOccurrences (map nameOf [?A])
                   @ nameOf ?f # newKeys (nameOf ?f # map nameOf [?A]) (map nameOf [?B])))"
    using dropRetries_first_occurrence_order [of ?L ?f ?p "[?A]" "[?B]" "[]"]
    by (simp only: append.simps)
  note c1 = inst [THEN conjunct1, THEN mp, OF h1]
  note c2 = inst [THEN conjunct2, THEN conjunct1, THEN mp, OF h2]
  note c3 = inst [THEN conjunct2, THEN conjunct2, THEN mp, OF conjI [OF h1 h3]]
  from c1 obtain k1 where
    k1: "dropRetries ?L = Inr k1" "map nameOf k1 = firstOccurrences (map nameOf ?L)"
        "map Some k1 = map (representative ?L) (firstOccurrences (map nameOf ?L))"
    by (elim exE conjE)
  from c3 obtain k3 where
    k3: "dropRetries ?L = Inr k3" "filter (\<lambda>c. nameOf c = nameOf ?f) k3 = [?p]"
    by (elim exE conjE)
  from k1(1) k3(1) have same: "k3 = k1" by simp
  have cond: "(hasFailure ?f \<and> \<not> hasFailure ?p) = True" using h3 by simp
  from c2 have a: "dropRetries [?f, ?p] = Inr [?p]" by (simp only: cond if_True)
  have b: "dropRetries [failingCase ''T'' ''1'', failingCase ''T'' ''2''] = Inr [failingCase ''T'' ''1'']"
    by code_simp
  have c: "dropRetries [passingCase ''T'' ''1'', passingCase ''T'' ''2''] = Inr [passingCase ''T'' ''1'']"
    by code_simp
  have d: "dropRetries ?L = Inr [?A, ?p, ?B]" by code_simp
  have e: "\<exists>kept. dropRetries ?L = Inr kept
          \<and> filter (\<lambda>c. nameOf c = Some ''T'') kept = [?p]
          \<and> map nameOf kept = [Some ''A'', Some ''T'', Some ''B'']
          \<and> map Some kept = map (representative ?L) [Some ''A'', Some ''T'', Some ''B'']"
    using k1 k3(2) unfolding same names n by (intro exI [of _ k1] conjI)
  have r: "map_sum id (\<lambda>r. map (\<lambda>a. (title a, status a)) (annotations r))
        (parseTestReports (exampleEnv [''r.xml''] [(''r.xml'', retriedReport)])
           (defaultOptions\<lparr>checkRetries := True\<rparr>) ''check'' ''summary'' ''reports/*.xml'')
       = Inr [(''T'', Success)]"
    by (simp add: retriedReport_run)
  from a r b c d e show ?thesis by (intro conjI)
qed

text \<open>
  Claim C4, as the code has it.  For a class name that is a string, \<open>resolveFileAndLine\<close>
  returns at line 65, whatever the search of the corpus would find, exactly when the
  resolved file name (the explicit file if it is not empty, else the last dot-segment of the
  class name) is not empty and the explicit line parses to a number other than zero.  In
  every other case the result is the one that the search of the corpus decides: the
  fallback of line 71 when nothing matches, the position read from the last match, or
  the fallback of the \<open>catch\<close> block when the search throws.
\<close>

theorem resolveFileAndLine_immediate_iff:
  "\<exists>f. resolvedFileName file (Some cls) = Inr f \<and>
     ((map_sum id fst (resolveFileAndLine_with search file ln (Some cls) output) = Inr Explicit)
        = (f \<noteq> [] \<and> (\<exists>k. safeParseInt ln = Some k \<and> k \<noteq> 0))) \<and>
     resolveFileAndLine_with search file ln (Some cls) output =
       (if f \<noteq> [] \<and> num_or (safeParseInt ln) 0 \<noteq> 0
        then Inr (Explicit, \<lparr>fileName = f, line = num_or (safeParseInt ln) 0\<rparr>)
        else (case search (escapedFileName f) output of
                Inl e \<Rightarrow> Inr (Caught, \<lparr>fileName = f, line = num_or (safeParseInt ln) (- 1)\<rparr>)
              | Inr None \<Rightarrow> Inr (NoMatch, \<lparr>fileName = f, line = num_or (safeParseInt ln) 1\<rparr>)
              | Inr (Some ms) \<Rightarrow>
                  if ms = [] then Inr (Caught, \<lparr>fileName = f, line = num_or (safeParseInt ln) (- 1)\<rparr>)
                  else Inr (Matched, fromLastItem f (last ms))))"
proof -
  obtain f where f: "resolvedFileName file (Some cls) = Inr f"
    using resolvedFileName_typed by blast
  let ?run = "resolveFileAndLine_with search file ln (Some cls) output"
  let ?cond = "f \<noteq> [] \<and> num_or (safeParseInt ln) 0 \<noteq> 0"
  have run: "?run =
       (if ?cond
        then Inr (Explicit, \<lparr>fileName = f, line = num_or (safeParseInt ln) 0\<rparr>)
        else (case search (escapedFileName f) output of
                Inl e \<Rightarrow> Inr (Caught, \<lparr>fileName = f, line = num_or (safeParseInt ln) (- 1)\<rparr>)
              | Inr None \<Rightarrow> Inr (NoMatch, \<lparr>fileName = f, line = num_or (safeParseInt ln) 1\<rparr>)
              | Inr (Some ms) \<Rightarrow>
                  if ms = [] then Inr (Caught, \<lparr>fileName = f, line = num_or (safeParseInt ln) (- 1)\<rparr>)
                  else Inr (Matched, fromLastItem f (last ms))))"
  proof (cases ?cond)
    case True
    then show ?thesis
      using f tryBlock_explicit [of f "safeParseInt ln" search "output"]
      by (simp add: resolveFileAndLine_with_def)
  next
    case False
    from tryBlock_search [OF False] f False show ?thesis
      by (simp add: resolveFileAndLine_with_def split: sum.splits option.splits)
  qed
  have "(map_sum id fst ?run = Inr Explicit) = ?cond"
    unfolding run by (simp split: sum.splits option.splits)
  then have "(map_sum id fst ?run = Inr Explicit) = (f \<noteq> [] \<and> (\<exists>k. safeParseInt ln = Some k \<and> k \<noteq> 0))"
    by (simp only: num_or_truthy)
  with f run show ?thesis by blast
qed

text \<open>Claim C4, the theorem at a class name with and without an explicit line.\<close>

theorem resolveFileAndLine_immediate_iff_witness:
  "resolvedFileName None (Some ''pkg.Foo'') = Inr ''Foo'' \<and>
   resolveFileAndLine_with regExpMatchAll None (Some ''5'') (Some ''pkg.Foo'') '' at Foo.java:42''
     = Inr (Explicit, \<lparr>fileName = ''Foo'', line = 5\<rparr>) \<and>
   resolveFileAndLine_with regExpMatchAll None None (Some ''pkg.Foo'') '' at Foo.java:42''
     = Inr (Matched, \<lparr>fileName = ''Foo'', line = 42\<rparr>)"
proof -
  have f: "resolvedFileName None (Some ''pkg.Foo'') = Inr ''Foo''" by code_simp
  have l5: "safeParseInt (Some ''5'') = Some 5" by code_simp
  have l0: "safeParseInt None = None" by code_simp
  have m: "regExpMatchAll (escapedFileName ''Foo'') '' at Foo.java:42'' = Inr (Some ['' Foo.java:42''])"
    by code_simp
  have p: "fromLastItem ''Foo'' '' Foo.java:42'' = \<lparr>fileName = ''Foo'', line = 42\<rparr>" by code_simp
  from resolveFileAndLine_immediate_iff [of None "''pkg.Foo''" regExpMatchAll "Some ''5''" "'' at Foo.java:42''"]
  have a: "resolveFileAndLine_with regExpMatchAll None (Some ''5'') (Some ''pkg.Foo'') '' at Foo.java:42''
     = Inr (Explicit, \<lparr>fileName = ''Foo'', line = 5\<rparr>)"
    by (simp add: f l5)
  from resolveFileAndLine_immediate_iff [of None "''pkg.Foo''" regExpMatchAll None "'' at Foo.java:42''"]
  have b: "resolveFileAndLine_with regExpMatchAll None None (Some ''pkg.Foo'') '' at Foo.java:42''
     = Inr (Matched, \<lparr>fileName = ''Foo'', line = 42\<rparr>)"
    by (simp add: f l0 m p)
  from f a b show ?thesis by simp
qed

text \<open>
  Claim C4 as the specification words it fails: with no explicit file, the class name
  \<open>Foo\<close> and the line \<open>5\<close> the function returns at once; with the explicit file \<open>a.js\<close> and
  the parseable line \<open>0\<close> it goes on to the search.
\<close>

theorem resolveFileAndLine_immediate_counterexample:
  "\<not> ((map_sum id fst (resolveFileAndLine_with regExpMatchAll None (Some ''5'') (Some ''Foo'') []) = Inr Explicit)
        = (truthy None \<and> safeParseInt (Some ''5'') \<noteq> None)) \<and>
   \<not> ((map_sum id fst (resolveFileAndLine_with regExpMatchAll (Some ''a.js'') (Some ''0'') (Some ''Foo'') []) = Inr Explicit)
        = (truthy (Some ''a.js'') \<and> safeParseInt (Some ''0'') \<noteq> None))"
  by code_simp



text \<open>
  Claim C6 fails on the code.  Line 61 stands before the \<open>try\<close> of line 63, so when the file
  is missing and the class name is \<open>undefined\<close>, \<open>className.split\<close> throws and nothing
  catches it.  \<open>parseSuite\<close> makes that call at lines 347-356 for a test case with neither
  \<open>classname\<close> nor \<open>name\<close> and no \<open>file\<close> attribute anywhere: its message is derived, its
  position is not, and the whole run of \<open>parseTestReports\<close> is rejected.
\<close>

theorem resolveFileAndLine_throws_outside_try:
  "resolveFileAndLine None None None [] = Inl TypeError
   \<and> resolveFileAndLine_with (\<lambda>name corpus. Inr None) None (Some ''7'') None ''at X.java:3'' = Inl TypeError
   \<and> messageOf defaultOptions unnamedCase [(''time'', ''1'')] = Inr ''boom''
   \<and> positionOf (Element None None None [(''testcase'', Single unnamedCase)]) unnamedCase
        [(''time'', ''1'')] = Inl TypeError
   \<and> parseTestReports (exampleEnv [''u.xml''] [(''u.xml'', unnamedReport)]) defaultOptions
        ''check'' ''summary'' ''reports/*.xml'' = Inl TypeError"
  by code_simp

text \<open>
  Claim C7 fails on the code: \<open>.replace('::', '/')\<close> with a string pattern replaces the
  first \<open>::\<close> only.  For the Rust path \<open>crate::tests::unit\<close> the pattern keeps its second
  \<open>::\<close>, so the file reference \<open>crate/tests/unit.rs:10\<close> of the corpus is not found.
\<close>

theorem escapedFileName_first_separator_only:
  "escapedFileName ''crate::tests::unit'' = ''crate/tests::unit'' \<and>
   resolveFileAndLine None None (Some ''crate::tests::unit'') ''panicked at crate/tests/unit.rs:10:5''
     = Inr \<lparr>fileName = ''crate::tests::unit'', line = 1\<rparr>"
  by code_simp

text \<open>
  Claim C8.  When the content of a report file does not parse, \<open>parseFile\<close> returns the
  empty result and throws nothing; the loop of \<open>parseTestReports\<close> counts the file as found
  and goes on with the remaining files, its accumulated counts and annotations unchanged.
  Wherever the file stands among the report files, the run ends in the same error or with
  the same counts and annotations as without it.
\<close>

theorem unparsable_file_is_skipped:
  "readFileSync e file = Inr content \<and> xml2json e content = Inl err
   \<longrightarrow> parseFile e opt file = Inr \<lparr>totalCount = 0, skipped = 0, annotations = []\<rparr>
     \<and> reportsLoop e opt (file # rest) acc n = reportsLoop e opt rest acc (n + 1)
     \<and> map_sum id fst (reportsLoop e opt (files @ file # rest) acc n)
         = map_sum id fst (reportsLoop e opt (files @ rest) acc n)"
proof (intro impI)
  assume "readFileSync e file = Inr content \<and> xml2json e content = Inl err"
  then have pf: "parseFile e opt file = Inr \<lparr>totalCount = 0, skipped = 0, annotations = []\<rparr>"
    by (simp add: unparsable_parseFile)
  then have "reportsLoop e opt (file # rest) acc n = reportsLoop e opt rest acc (n + 1)"
    by simp
  with pf reportsLoop_skips [OF pf] show
    "parseFile e opt file = Inr \<lparr>totalCount = 0, skipped = 0, annotations = []\<rparr>
     \<and> reportsLoop e opt (file # rest) acc n = reportsLoop e opt rest acc (n + 1)
     \<and> map_sum id fst (reportsLoop e opt (files @ file # rest) acc n)
         = map_sum id fst (reportsLoop e opt (files @ rest) acc n)"
    by simp
qed

text \<open>Claim C8 on a run over a file that does not parse and the report of four cases.\<close>

theorem unparsable_file_is_skipped_witness:
  "xml2json (exampleEnv [''bad.xml'', ''a.xml''] [(''a.xml'', mixedReport)]) ''bad.xml'' = Inl SyntaxError
   \<and> parseFile (exampleEnv [''bad.xml'', ''a.xml''] [(''a.xml'', mixedReport)]) defaultOptions ''bad.xml''
       = Inr \<lparr>totalCount = 0, skipped = 0, annotations = []\<rparr>
   \<and> reportsLoop (exampleEnv [''bad.xml'', ''a.xml''] [(''a.xml'', mixedReport)]) defaultOptions
         [''bad.xml'', ''a.xml''] emptyResult 0
       = reportsLoop (exampleEnv [''bad.xml'', ''a.xml''] [(''a.xml'', mixedReport)]) defaultOptions
         [''a.xml''] emptyResult 1
   \<and> parseTestReports (exampleEnv [''bad.xml'', ''a.xml''] [(''a.xml'', mixedReport)]) defaultOptions
        ''check'' ''summary'' ''reports/*.xml''
       = Inr \<lparr>totalCount = 4, skipped = 2, annotations = mixedAnnotations,
              checkName = ''check'', summary = ''summary'', failed = 1, passed = 1, foundFiles = 2\<rparr>"
proof -
  let ?e = "exampleEnv [''bad.xml'', ''a.xml''] [(''a.xml'', mixedReport)]"
  have r: "readFileSync ?e ''bad.xml'' = Inr ''bad.xml''" by code_simp
  have x: "xml2json ?e ''bad.xml'' = Inl SyntaxError" by code_simp
  note inst = unparsable_file_is_skipped
    [of ?e "''bad.xml''" "''bad.xml''" SyntaxError defaultOptions "[''a.xml'']" emptyResult 0 "[]"]
  from inst r x after_unparsable_run show ?thesis by simp
qed

text \<open>
  Claim C9.  When an element of the sequence of suites is falsy, \<open>parseSuite\<close> returns what
  it has accumulated and raises nothing; whatever follows the falsy element has no
  influence on the result.  The wrapper \<open><testsuites/>\<close> with no \<open>testsuite\<close> child gives the
  sequence that holds \<open>undefined\<close> alone, and the empty result.
\<close>

theorem falsy_suite_returns:
  "suitesLoop e opt parentName (None # rest) acc = Inr acc
   \<and> suitesLoop e opt parentName (suites @ None # rest) acc
       = suitesLoop e opt parentName (suites @ [None]) acc
   \<and> (getChild suite ''testsuite'' = None
        \<and> getChild suite ''testsuites'' = Some (Single wrapper)
        \<and> getChild wrapper ''testsuite'' = None
      \<longrightarrow> testsuitesOf suite = [None] \<and> parseSuite e opt suite parentName = Inr emptyResult)"
proof (intro conjI impI)
  show "suitesLoop e opt parentName (None # rest) acc = Inr acc" by simp
  show "suitesLoop e opt parentName (suites @ None # rest) acc
       = suitesLoop e opt parentName (suites @ [None]) acc"
    by (rule suitesLoop_stops_at_falsy)
next
  assume a: "getChild suite ''testsuite'' = None
        \<and> getChild suite ''testsuites'' = Some (Single wrapper)
        \<and> getChild wrapper ''testsuite'' = None"
  then show "testsuitesOf suite = [None]" by (simp add: testsuitesOf_def)
  with a show "parseSuite e opt suite parentName = Inr emptyResult"
    by (simp add: parseSuite.simps)
qed

text \<open>
  Claim C9 on the document of \<open><testsuites/>\<close>, and on a sequence whose second element is
  falsy and whose third would throw.
\<close>

theorem falsy_suite_returns_witness:
  "parseSuite (exampleEnv [] []) defaultOptions emptyWrapper (NameString []) = Inr emptyResult
   \<and> suitesLoop (exampleEnv [] []) defaultOptions (NameString [])
       [Some (node [(''name'', ''Suite'')] [(''testcase'', Single (node [(''name'', ''ok'')] []))]),
        None, Some brokenSuite] emptyResult
     = Inr \<lparr>totalCount = 1, skipped = 0, annotations = take 1 mixedAnnotations\<rparr>"
proof -
  have w: "getChild emptyWrapper ''testsuite'' = None
        \<and> getChild emptyWrapper ''testsuites'' = Some (Single bare)
        \<and> getChild bare ''testsuite'' = None"
    by code_simp
  note inst = falsy_suite_returns
    [of "exampleEnv [] []" defaultOptions "NameString []" "[Some brokenSuite]" emptyResult
        "[Some (node [(''name'', ''Suite'')] [(''testcase'', Single (node [(''name'', ''ok'')] []))])]"
        emptyWrapper bare]
  from inst w before_falsy_run show ?thesis by simp
qed

text \<open>
  Claim C10.  In every TestResult that \<open>parseTestReports\<close> returns \<open>passed\<close> is not negative:
  every counted test case has one annotation, \<open>skipped\<close> counts the annotations of status
  \<open>skipped\<close>, and no annotation is of level \<open>failure\<close> and of status \<open>skipped\<close> at once, so
  \<open>failed + skipped\<close> is at most \<open>totalCount\<close>.
\<close>

theorem parseTestReports_passed_nonnegative:
  assumes "parseTestReports e opt name text reportPaths = Inr r"
  shows "0 \<le> passed r
       \<and> failed r + skipped r \<le> totalCount r
       \<and> totalCount r = int (length (annotations r))
       \<and> skipped r = int (length (filter (\<lambda>a. status a = Skipped) (annotations r)))
       \<and> list_all (\<lambda>a. \<not> (annotation_level a = Failure \<and> status a = Skipped)) (annotations r)"
proof -
  from parseTestReports_result [OF assms] obtain acc where acc:
    "wellCounted acc" "totalCount r = totalCount acc" "skipped r = skipped acc"
    "annotations r = annotations acc" "failed r = failureCount (annotations acc)"
    "passed r = totalCount acc - failureCount (annotations acc) - skipped acc"
    by blast
  from wellCounted_bound [OF acc(1)] wellCounted_disjoint [OF acc(1)] acc
  show ?thesis by (simp add: wellCounted_def skippedCount_def)
qed

text \<open>Claim C10 on the same report.\<close>

theorem parseTestReports_passed_nonnegative_witness:
  "\<exists>r. parseTestReports (exampleEnv [''a.xml''] [(''a.xml'', mixedReport)]) defaultOptions
          ''check'' ''summary'' ''reports/*.xml'' = Inr r
       \<and> passed r = 1 \<and> 0 \<le> passed r \<and> failed r + skipped r \<le> totalCount r
       \<and> totalCount r = int (length (annotations r))
       \<and> skipped r = int (length (filter (\<lambda>a. status a = Skipped) (annotations r)))
       \<and> list_all (\<lambda>a. \<not> (annotation_level a = Failure \<and> status a = Skipped)) (annotations r)"
  using parseTestReports_passed_nonnegative [OF mixedReport_run] mixedReport_run by simp

end
